theory Spec2Isabelle
  imports Main
begin

section \<open>JavaScript values, objects and the heap\<close>

text \<open>
  The library manipulates dynamically typed values. Primitive values are compared by
  value and objects by reference, so an object value is an address into a heap of
  objects. Numbers are modelled by integers plus the one number that is not equal to
  itself. A function value is an identifier; what calling it does is given by an
  environment that the operations take as a parameter.
\<close>

datatype jsval =
    Undefined
  | Null
  | JBool bool
  | Num int
  | NaN
  | Str string
  | Fn nat
  | Obj nat

fun typeof :: "jsval \<Rightarrow> string" where
  "typeof Undefined = ''undefined''"
| "typeof Null = ''object''"
| "typeof (JBool b) = ''boolean''"
| "typeof (Num n) = ''number''"
| "typeof NaN = ''number''"
| "typeof (Str s) = ''string''"
| "typeof (Fn f) = ''function''"
| "typeof (Obj r) = ''object''"

text \<open>The operator \<^verbatim>\<open>===\<close>; \<^verbatim>\<open>!==\<close> is its negation.\<close>

definition strict_eq :: "jsval \<Rightarrow> jsval \<Rightarrow> bool" where
  "strict_eq a b = (a = b \<and> a \<noteq> NaN)"

text \<open>What \<^verbatim>\<open>if (v)\<close> and \<^verbatim>\<open>v && e\<close> test.\<close>

fun truthy :: "jsval \<Rightarrow> bool" where
  "truthy Undefined = False"
| "truthy Null = False"
| "truthy (JBool b) = b"
| "truthy (Num n) = (n \<noteq> 0)"
| "truthy NaN = False"
| "truthy (Str s) = (s \<noteq> [])"
| "truthy (Fn f) = True"
| "truthy (Obj r) = True"

text \<open>
  An object has a prototype (\<open>None\<close> is \<^verbatim>\<open>null\<close>) and its own properties in
  insertion order, which is the order \<^verbatim>\<open>Object.keys\<close> lists them in. The object at
  address \<open>0\<close> is \<^verbatim>\<open>Object.prototype\<close>, the prototype of every object literal.
  \<open>rng\<close> counts the random strings that probes have drawn so far. \<open>journal\<close>
  stands for an array of the user's that callbacks append to.
\<close>

record jsobj =
  proto :: "nat option"
  props :: "(string \<times> jsval) list"

record heap =
  objs :: "jsobj list"
  rng :: nat
  journal :: "jsval list"

definition ObjectPrototype :: nat where
  "ObjectPrototype = 0"

definition obj_at :: "heap \<Rightarrow> nat \<Rightarrow> jsobj" where
  "obj_at h r = (if r < length (objs h) then objs h ! r else \<lparr>proto = None, props = []\<rparr>)"

text \<open>
  \<^verbatim>\<open>Object.getPrototypeOf\<close>. The prototype of \<^verbatim>\<open>Object.prototype\<close> is \<^verbatim>\<open>null\<close> and
  cannot be changed.
\<close>

definition getPrototypeOf :: "heap \<Rightarrow> nat \<Rightarrow> nat option" where
  "getPrototypeOf h r = (if r = ObjectPrototype then None else proto (obj_at h r))"

text \<open>An object literal \<^verbatim>\<open>{k1: v1, ...}\<close> allocates a fresh object.\<close>

definition alloc :: "jsobj \<Rightarrow> heap \<Rightarrow> nat \<times> heap" where
  "alloc ob h = (length (objs h), h\<lparr>objs := objs h @ [ob]\<rparr>)"

definition literal :: "(string \<times> jsval) list \<Rightarrow> heap \<Rightarrow> nat \<times> heap" where
  "literal ps h = alloc \<lparr>proto = Some ObjectPrototype, props = ps\<rparr> h"

text \<open>
  The assignment \<^verbatim>\<open>o[k] = v\<close> on an object that this library has created itself: the
  property is replaced where it is, or appended.
\<close>

fun put :: "string \<Rightarrow> jsval \<Rightarrow> (string \<times> jsval) list \<Rightarrow> (string \<times> jsval) list" where
  "put k v [] = [(k, v)]"
| "put k v (p # ps) = (if fst p = k then (k, v) # ps else p # put k v ps)"

definition set_prop :: "nat \<Rightarrow> string \<Rightarrow> jsval \<Rightarrow> heap \<Rightarrow> heap" where
  "set_prop r k v h =
     (if r < length (objs h)
      then h\<lparr>objs := (objs h)[r := (objs h ! r)\<lparr>props := put k v (props (objs h ! r))\<rparr>]\<rparr>
      else h)"

definition keys :: "heap \<Rightarrow> nat \<Rightarrow> string list" where
  "keys h r = map fst (props (obj_at h r))"

section \<open>Errors and outcomes\<close>

text \<open>
  One constructor for each place where the library throws, and one for a value thrown by
  user code. \<open>kind\<close> is the classification of section 7 of the specification.
\<close>

datatype error =
    SeveralEnhancers
  | EnhancerNotFunction
  | ReducerNotFunction
  | GetStateWhileDispatching
  | ListenerNotFunction
  | SubscribeWhileDispatching
  | UnsubscribeWhileDispatching
  | ActionNotPlainObject
  | ActionTypeUndefined
  | ReducersMayNotDispatch
  | NextReducerNotFunction
  | DispatchWhileConstructing
  | UndefinedDuringInit string
  | UndefinedWhenProbed string
  | UndefinedState string "string option"
  | NativeTypeError
  | Thrown jsval

datatype error_kind =
  ConfigurationError | InvariantViolation | ShapeError | StateError | OtherError

fun kind :: "error \<Rightarrow> error_kind" where
  "kind SeveralEnhancers = ConfigurationError"
| "kind EnhancerNotFunction = ConfigurationError"
| "kind ReducerNotFunction = ConfigurationError"
| "kind ListenerNotFunction = ConfigurationError"
| "kind ActionNotPlainObject = ConfigurationError"
| "kind ActionTypeUndefined = ConfigurationError"
| "kind NextReducerNotFunction = ConfigurationError"
| "kind DispatchWhileConstructing = ConfigurationError"
| "kind GetStateWhileDispatching = InvariantViolation"
| "kind SubscribeWhileDispatching = InvariantViolation"
| "kind UnsubscribeWhileDispatching = InvariantViolation"
| "kind ReducersMayNotDispatch = InvariantViolation"
| "kind (UndefinedDuringInit k) = ShapeError"
| "kind (UndefinedWhenProbed k) = ShapeError"
| "kind (UndefinedState k t) = StateError"
| "kind NativeTypeError = OtherError"
| "kind (Thrown v) = OtherError"

text \<open>
  A call either does not return (\<open>Diverge\<close>), throws, or returns a value; in the last
  two cases it leaves a state behind.
\<close>

datatype ('a, 'w) res = Diverge | Throw error 'w | Ok 'a 'w

section \<open>The shape validator (utils/isPlainObject.js)\<close>

text \<open>
  The loop \<^verbatim>\<open>while (Object.getPrototypeOf(proto) !== null) proto = Object.getPrototypeOf(proto)\<close>.
  It does not return on a cyclic prototype chain.
\<close>

partial_function (option) proto_loop :: "heap \<Rightarrow> nat \<Rightarrow> nat option" where
  "proto_loop h p =
     (case getPrototypeOf h p of
        None \<Rightarrow> Some p
      | Some q \<Rightarrow> proto_loop h q)"

declare proto_loop.simps [code]

definition isPlainObject :: "heap \<Rightarrow> jsval \<Rightarrow> bool option" where
  "isPlainObject h obj =
     (if typeof obj \<noteq> ''object'' \<or> obj = Null then Some False
      else case obj of
             Obj r \<Rightarrow>
               (case proto_loop h r of
                  None \<Rightarrow> None
                | Some p \<Rightarrow> Some (getPrototypeOf h r = Some p))
           | _ \<Rightarrow> Some False)"

text \<open>
  Reading a property, \<^verbatim>\<open>o[k]\<close>: the object's own property, else its prototype's, and
  \<^verbatim>\<open>undefined\<close> at the end of the chain. Reading a property of \<^verbatim>\<open>null\<close> or
  \<^verbatim>\<open>undefined\<close> throws. The properties of the other primitive values and of functions
  are not in the heap; \<open>get\<close> is applied to objects, and gives \<^verbatim>\<open>undefined\<close> for those
  values.
\<close>

partial_function (option) get_prop :: "heap \<Rightarrow> nat \<Rightarrow> string \<Rightarrow> jsval option" where
  "get_prop h r k =
     (case map_of (props (obj_at h r)) k of
        Some v \<Rightarrow> Some v
      | None \<Rightarrow>
          (case getPrototypeOf h r of
             None \<Rightarrow> Some Undefined
           | Some q \<Rightarrow> get_prop h q k))"

declare get_prop.simps [code]

definition get :: "jsval \<Rightarrow> string \<Rightarrow> heap \<Rightarrow> (jsval, heap) res" where
  "get v k h =
     (case v of
        Undefined \<Rightarrow> Throw NativeTypeError h
      | Null \<Rightarrow> Throw NativeTypeError h
      | Obj r \<Rightarrow> (case get_prop h r k of None \<Rightarrow> Diverge | Some x \<Rightarrow> Ok x h)
      | _ \<Rightarrow> Ok Undefined h)"

section \<open>Action types (utils/actionTypes.js)\<close>

text \<open>
  The module draws two random strings when it is loaded and one more at every call of
  \<^verbatim>\<open>PROBE_UNKNOWN_ACTION\<close>. \<open>randomString\<close> is the sequence of strings drawn; the
  \<open>n\<close>-th probe uses the string after the two of the constants.
\<close>

record action_types =
  INIT :: string
  REPLACE :: string
  PROBE_UNKNOWN_ACTION :: "nat \<Rightarrow> string"

definition ActionTypes :: "(nat \<Rightarrow> string) \<Rightarrow> action_types" where
  "ActionTypes randomString =
     \<lparr>INIT = ''@@redux/INIT'' @ randomString 0,
      REPLACE = ''@@redux/REPLACE'' @ randomString 1,
      PROBE_UNKNOWN_ACTION = (\<lambda>n. ''@@redux/PROBE_UNKNOWN_ACTION'' @ randomString (n + 2))\<rparr>"

section \<open>The store (createStore.js)\<close>

subsection \<open>State of a store\<close>

text \<open>
  The variables that the closures of one \<^verbatim>\<open>createStore\<close> call share. The two listener
  variables hold references to arrays, which live in \<open>arrays\<close>; \<open>currentListeners\<close>
  can be \<^verbatim>\<open>null\<close>. Every call of \<^verbatim>\<open>subscribe\<close> creates an \<^verbatim>\<open>unsubscribe\<close> closure
  with its own \<^verbatim>\<open>listener\<close> and \<^verbatim>\<open>isSubscribed\<close>; the closures are numbered in the
  order of their creation.
\<close>

record subscription =
  listener :: jsval
  isSubscribed :: bool

record world =
  hp :: heap
  currentReducer :: jsval
  currentState :: jsval
  currentListeners :: "nat option"
  nextListeners :: nat
  isDispatching :: bool
  arrays :: "jsval list list"
  subscriptions :: "subscription list"

definition array_at :: "world \<Rightarrow> nat \<Rightarrow> jsval list" where
  "array_at w r = (if r < length (arrays w) then arrays w ! r else [])"

subsection \<open>Callbacks\<close>

text \<open>
  Reducers and listeners are user code that may call back into the store. The body of a
  function is a tree: it returns, throws, or makes one call and continues with the reply
  to it, which may be the error that the call threw (a \<^verbatim>\<open>try\<close>/\<^verbatim>\<open>catch\<close>). A call is
  one of the store's methods, the \<^verbatim>\<open>unsubscribe\<close> closure of a subscription, or a
  computation on the heap.
\<close>

datatype call =
    Dispatch jsval
  | GetState
  | Subscribe jsval
  | Unsubscribe nat
  | ReplaceReducer jsval
  | HeapOp "heap \<Rightarrow> (jsval, heap) res"

datatype reply = Returned jsval | Handle nat | Failed error

datatype prog = Return jsval | Raise error | Call call "reply \<Rightarrow> prog"

text \<open>
  The object that \<^verbatim>\<open>createStore\<close> returns: its methods (those that run callbacks take
  the bound on nested calls first). An enhancer maps a store creator to a store creator.
\<close>

record store =
  store_dispatch :: "nat \<Rightarrow> jsval \<Rightarrow> world \<Rightarrow> (jsval, world) res"
  store_subscribe :: "jsval \<Rightarrow> world \<Rightarrow> (nat, world) res"
  store_getState :: "world \<Rightarrow> (jsval, world) res"
  store_replaceReducer :: "nat \<Rightarrow> jsval \<Rightarrow> world \<Rightarrow> (jsval, world) res"

type_synonym creator = "jsval list \<Rightarrow> world \<Rightarrow> (store, world) res"

text \<open>
  The environment: the body of every function value used as a reducer or a listener,
  what every function value used as an enhancer does, and the random strings.
\<close>

record env =
  body :: "nat \<Rightarrow> jsval list \<Rightarrow> prog"
  enhance :: "nat \<Rightarrow> creator \<Rightarrow> creator"
  randomString :: "nat \<Rightarrow> string"

subsection \<open>getState, subscribe, unsubscribe\<close>

definition ensureCanMutateNextListeners :: "world \<Rightarrow> world" where
  "ensureCanMutateNextListeners w =
     (if Some (nextListeners w) = currentListeners w
      then w\<lparr>nextListeners := length (arrays w),
             arrays := arrays w @ [array_at w (nextListeners w)]\<rparr>
      else w)"

definition getState :: "world \<Rightarrow> (jsval, world) res" where
  "getState w =
     (if isDispatching w then Throw GetStateWhileDispatching w
      else Ok (currentState w) w)"

text \<open>\<^verbatim>\<open>Array.prototype.indexOf\<close> and \<^verbatim>\<open>splice(index, 1)\<close>, negative index included.\<close>

fun indexOf :: "jsval list \<Rightarrow> jsval \<Rightarrow> int" where
  "indexOf [] v = - 1"
| "indexOf (x # xs) v =
     (if strict_eq x v then 0
      else (let i = indexOf xs v in if i < 0 then - 1 else i + 1))"

definition splice1 :: "int \<Rightarrow> 'a list \<Rightarrow> 'a list" where
  "splice1 index xs =
     (let len = int (length xs);
          start = (if index < 0 then max (len + index) 0 else min index len)
      in take (nat start) xs @ drop (Suc (nat start)) xs)"

definition subscribe :: "jsval \<Rightarrow> world \<Rightarrow> (nat, world) res" where
  "subscribe l w =
     (if typeof l \<noteq> ''function'' then Throw ListenerNotFunction w
      else if isDispatching w then Throw SubscribeWhileDispatching w
      else
        let w1 = w\<lparr>subscriptions := subscriptions w @ [\<lparr>listener = l, isSubscribed = True\<rparr>]\<rparr>;
            w2 = ensureCanMutateNextListeners w1;
            w3 = w2\<lparr>arrays := (arrays w2)[nextListeners w2 := array_at w2 (nextListeners w2) @ [l]]\<rparr>
        in Ok (length (subscriptions w)) w3)"

text \<open>
  Calling the \<^verbatim>\<open>unsubscribe\<close> closure number \<open>u\<close>. A number that no \<^verbatim>\<open>subscribe\<close>
  has returned yet stands for no function.
\<close>

definition unsubscribe :: "nat \<Rightarrow> world \<Rightarrow> (jsval, world) res" where
  "unsubscribe u w =
     (if \<not> u < length (subscriptions w) then Throw NativeTypeError w
      else if \<not> isSubscribed (subscriptions w ! u) then Ok Undefined w
      else if isDispatching w then Throw UnsubscribeWhileDispatching w
      else
        let l = listener (subscriptions w ! u);
            w1 = w\<lparr>subscriptions := (subscriptions w)[u := \<lparr>listener = l, isSubscribed = False\<rparr>]\<rparr>;
            w2 = ensureCanMutateNextListeners w1;
            index = indexOf (array_at w2 (nextListeners w2)) l;
            w3 = w2\<lparr>arrays := (arrays w2)[nextListeners w2 := splice1 index (array_at w2 (nextListeners w2))]\<rparr>
        in Ok Undefined (w3\<lparr>currentListeners := None\<rparr>))"

subsection \<open>dispatch and replaceReducer\<close>

text \<open>
  A listener may dispatch, and the reducer or another listener then runs inside that
  call, so these functions are mutually recursive and need not return: the first
  argument bounds the number of nested calls and loop iterations, and \<open>Diverge\<close> is the
  outcome when it is used up. \<open>notify\<close> is the loop over \<^verbatim>\<open>listeners\<close> from index
  \<open>i\<close>; it reads the array at every iteration, as the loop does, and also returns the
  listeners it has called, which the source does not record.
\<close>

definition with_heap :: "world \<Rightarrow> ('a, heap) res \<Rightarrow> ('a, world) res" where
  "with_heap w r =
     (case r of
        Diverge \<Rightarrow> Diverge
      | Throw e h \<Rightarrow> Throw e (w\<lparr>hp := h\<rparr>)
      | Ok v h \<Rightarrow> Ok v (w\<lparr>hp := h\<rparr>))"

function exec :: "nat \<Rightarrow> env \<Rightarrow> prog \<Rightarrow> world \<Rightarrow> (jsval, world) res"
and run_call :: "nat \<Rightarrow> env \<Rightarrow> call \<Rightarrow> world \<Rightarrow> (reply, world) res"
and invoke :: "nat \<Rightarrow> env \<Rightarrow> jsval \<Rightarrow> jsval list \<Rightarrow> world \<Rightarrow> (jsval, world) res"
and dispatch :: "nat \<Rightarrow> env \<Rightarrow> jsval \<Rightarrow> world \<Rightarrow> (jsval, world) res"
and notify :: "nat \<Rightarrow> env \<Rightarrow> nat \<Rightarrow> nat \<Rightarrow> world \<Rightarrow> (jsval list, world) res"
and replaceReducer :: "nat \<Rightarrow> env \<Rightarrow> jsval \<Rightarrow> world \<Rightarrow> (jsval, world) res"
where
  "exec n E (Return v) w = Ok v w"
| "exec n E (Raise e) w = Throw e w"
| "exec 0 E (Call c k) w = Diverge"
| "exec (Suc n) E (Call c k) w =
     (case run_call n E c w of
        Diverge \<Rightarrow> Diverge
      | Throw e w' \<Rightarrow> exec n E (k (Failed e)) w'
      | Ok r w' \<Rightarrow> exec n E (k r) w')"
| "run_call n E (Dispatch a) w =
     (case dispatch n E a w of
        Diverge \<Rightarrow> Diverge
      | Throw e w' \<Rightarrow> Throw e w'
      | Ok v w' \<Rightarrow> Ok (Returned v) w')"
| "run_call n E GetState w =
     (case getState w of
        Diverge \<Rightarrow> Diverge
      | Throw e w' \<Rightarrow> Throw e w'
      | Ok v w' \<Rightarrow> Ok (Returned v) w')"
| "run_call n E (Subscribe l) w =
     (case subscribe l w of
        Diverge \<Rightarrow> Diverge
      | Throw e w' \<Rightarrow> Throw e w'
      | Ok u w' \<Rightarrow> Ok (Handle u) w')"
| "run_call n E (Unsubscribe u) w =
     (case unsubscribe u w of
        Diverge \<Rightarrow> Diverge
      | Throw e w' \<Rightarrow> Throw e w'
      | Ok v w' \<Rightarrow> Ok (Returned v) w')"
| "run_call n E (ReplaceReducer r) w =
     (case replaceReducer n E r w of
        Diverge \<Rightarrow> Diverge
      | Throw e w' \<Rightarrow> Throw e w'
      | Ok v w' \<Rightarrow> Ok (Returned v) w')"
| "run_call n E (HeapOp f) w =
     (case with_heap w (f (hp w)) of
        Diverge \<Rightarrow> Diverge
      | Throw e w' \<Rightarrow> Throw e w'
      | Ok v w' \<Rightarrow> Ok (Returned v) w')"
| "invoke 0 E f args w = Diverge"
| "invoke (Suc n) E f args w =
     (case f of
        Fn i \<Rightarrow> exec n E (body E i args) w
      | _ \<Rightarrow> Throw NativeTypeError w)"
| "dispatch n E action w =
     (case isPlainObject (hp w) action of
        None \<Rightarrow> Diverge
      | Some plain \<Rightarrow>
          if \<not> plain then Throw ActionNotPlainObject w
          else
            (case with_heap w (get action ''type'' (hp w)) of
               Diverge \<Rightarrow> Diverge
             | Throw e w' \<Rightarrow> Throw e w'
             | Ok t _ \<Rightarrow>
                 if typeof t = ''undefined'' then Throw ActionTypeUndefined w
                 else if isDispatching w then Throw ReducersMayNotDispatch w
                 else
                   (case invoke n E (currentReducer w) [currentState w, action]
                           (w\<lparr>isDispatching := True\<rparr>) of
                      Diverge \<Rightarrow> Diverge
                    | Throw e w1 \<Rightarrow> Throw e (w1\<lparr>isDispatching := False\<rparr>)
                    | Ok s w1 \<Rightarrow>
                        (let w2 = w1\<lparr>currentState := s, isDispatching := False\<rparr>;
                             listeners = nextListeners w2;
                             w3 = w2\<lparr>currentListeners := Some listeners\<rparr>
                         in case notify n E listeners 0 w3 of
                              Diverge \<Rightarrow> Diverge
                            | Throw e w4 \<Rightarrow> Throw e w4
                            | Ok called w4 \<Rightarrow> Ok action w4))))"
| "notify 0 E listeners i w = Diverge"
| "notify (Suc n) E listeners i w =
     (if i < length (array_at w listeners)
      then
        (let l = array_at w listeners ! i
         in case invoke n E l [] w of
              Diverge \<Rightarrow> Diverge
            | Throw e w' \<Rightarrow> Throw e w'
            | Ok v w' \<Rightarrow>
                (case notify n E listeners (Suc i) w' of
                   Diverge \<Rightarrow> Diverge
                 | Throw e w'' \<Rightarrow> Throw e w''
                 | Ok called w'' \<Rightarrow> Ok (l # called) w''))
      else Ok [] w)"
| "replaceReducer n E nextReducer w =
     (if typeof nextReducer \<noteq> ''function'' then Throw NextReducerNotFunction w
      else
        (let w1 = w\<lparr>currentReducer := nextReducer\<rparr>;
             (a, h) = literal [(''type'', Str (REPLACE (ActionTypes (randomString E))))] (hp w1)
         in case dispatch n E (Obj a) (w1\<lparr>hp := h\<rparr>) of
              Diverge \<Rightarrow> Diverge
            | Throw e w' \<Rightarrow> Throw e w'
            | Ok v w' \<Rightarrow> Ok Undefined w'))"

  by pat_completeness auto

termination
  by (relation "measure (\<lambda>x. case x of
         Inl (Inl (n, _)) \<Rightarrow> 4 * n
       | Inl (Inr (Inl (n, _))) \<Rightarrow> 4 * n + 3
       | Inl (Inr (Inr (n, _))) \<Rightarrow> 4 * n
       | Inr (Inl (n, _)) \<Rightarrow> 4 * n + 1
       | Inr (Inr (Inl (n, _))) \<Rightarrow> 4 * n
       | Inr (Inr (Inr (n, _))) \<Rightarrow> 4 * n + 2)") auto

declare dispatch.simps [simp del]
declare replaceReducer.simps [simp del]

subsection \<open>createStore\<close>

text \<open>The \<open>i\<close>-th argument of a call, \<^verbatim>\<open>undefined\<close> when it was not passed.\<close>

definition arg :: "nat \<Rightarrow> jsval list \<Rightarrow> jsval" where
  "arg i args = (if i < length args then args ! i else Undefined)"

text \<open>
  A new store replaces the variables of the previous one: the model has one store at a
  time. The bound on nested calls is spent by an enhancer that calls the creator it is
  given with an enhancer again.
\<close>

fun createStore :: "nat \<Rightarrow> env \<Rightarrow> jsval list \<Rightarrow> world \<Rightarrow> (store, world) res" where
  "createStore n E args w =
     (let reducer = arg 0 args; preloadedState = arg 1 args; enhancer = arg 2 args
      in
        if (typeof preloadedState = ''function'' \<and> typeof enhancer = ''function'') \<or>
           (typeof enhancer = ''function'' \<and> typeof (arg 3 args) = ''function'')
        then Throw SeveralEnhancers w
        else
          let shift = (typeof preloadedState = ''function'' \<and> typeof enhancer = ''undefined'');
              enhancer' = (if shift then preloadedState else enhancer);
              preloadedState' = (if shift then Undefined else preloadedState)
          in
            if typeof enhancer' \<noteq> ''undefined''
            then
              (if typeof enhancer' \<noteq> ''function'' then Throw EnhancerNotFunction w
               else
                 (case enhancer' of
                    Fn f \<Rightarrow>
                      (case n of
                         0 \<Rightarrow> Diverge
                       | Suc m \<Rightarrow> enhance E f (createStore m E) [reducer, preloadedState'] w)
                  | _ \<Rightarrow> Throw NativeTypeError w))
            else if typeof reducer \<noteq> ''function'' then Throw ReducerNotFunction w
            else
              (let w1 = w\<lparr>currentReducer := reducer,
                          currentState := preloadedState',
                          currentListeners := Some 0,
                          nextListeners := 0,
                          isDispatching := False,
                          arrays := [[]],
                          subscriptions := []\<rparr>;
                   (a, h) = literal [(''type'', Str (INIT (ActionTypes (randomString E))))] (hp w1)
               in case dispatch n E (Obj a) (w1\<lparr>hp := h\<rparr>) of
                    Diverge \<Rightarrow> Diverge
                  | Throw e w' \<Rightarrow> Throw e w'
                  | Ok v w' \<Rightarrow>
                      Ok \<lparr>store_dispatch = (\<lambda>m. dispatch m E),
                          store_subscribe = subscribe,
                          store_getState = getState,
                          store_replaceReducer = (\<lambda>m. replaceReducer m E)\<rparr> w'))"

declare createStore.simps [simp del]

section \<open>The reducer combinator (combineReducers.js)\<close>

subsection \<open>The host\<close>

text \<open>
  The combinator calls functions that it is given and uses built-in operations. What these
  do is not written in this library, so it is a parameter of the model:

    \<^item> \<open>fcall f this args\<close> is the call of the function value \<open>f\<close>, a reducer or a method
      found in an object, with the given \<^verbatim>\<open>this\<close> and arguments;
    \<^item> \<open>prop_of v k\<close> is the property \<open>k\<close> of a value whose properties are not in the heap,
      a primitive value other than \<^verbatim>\<open>null\<close> and \<^verbatim>\<open>undefined\<close> or a function, and the
      property \<^verbatim>\<open>__proto__\<close> of an object, which \<^verbatim>\<open>Object.prototype\<close> computes;
    \<^item> \<open>keys_of v\<close> is \<^verbatim>\<open>Object.keys(v)\<close> for a primitive value or a function;
    \<^item> \<open>to_string v\<close> is \<^verbatim>\<open>String(v)\<close>, which for an object calls its \<^verbatim>\<open>toString\<close> or
      \<^verbatim>\<open>valueOf\<close> and throws when it has neither;
    \<^item> \<open>type_name v\<close> is the expression \<^verbatim>\<open>{}.toString.call(v).match(/\s([a-z|A-Z]+)/)[1]\<close>,
      which throws when nothing matches;
    \<^item> \<open>adopt r v\<close> is the assignment of \<open>v\<close> to the property \<^verbatim>\<open>__proto__\<close> of the object
      \<open>r\<close>, which \<^verbatim>\<open>Object.prototype\<close> turns into a change of prototype;
    \<^item> \<open>warning\<close> is the function of \<^verbatim>\<open>utils/warning.js\<close>, which is not among the sources:
      it reports a message;
    \<^item> \<open>production\<close> says that \<^verbatim>\<open>process.env.NODE_ENV\<close> is \<^verbatim>\<open>'production'\<close>.
\<close>

datatype message =
    NoReducerProvided string
  | NoValidReducer
  | UnexpectedType bool string "string list"
  | UnexpectedKeys "string list" bool "string list"

record host =
  fcall :: "jsval \<Rightarrow> jsval \<Rightarrow> jsval list \<Rightarrow> heap \<Rightarrow> (jsval, heap) res"
  prop_of :: "jsval \<Rightarrow> string \<Rightarrow> heap \<Rightarrow> jsval"
  keys_of :: "jsval \<Rightarrow> heap \<Rightarrow> string list"
  to_string :: "jsval \<Rightarrow> heap \<Rightarrow> (string, heap) res"
  type_name :: "jsval \<Rightarrow> heap \<Rightarrow> (string, heap) res"
  adopt :: "nat \<Rightarrow> jsval \<Rightarrow> heap \<Rightarrow> heap"
  warning :: "message \<Rightarrow> heap \<Rightarrow> (unit, heap) res"
  production :: bool

text \<open>A call \<^verbatim>\<open>f(...)\<close> or \<^verbatim>\<open>o.f(...)\<close>: calling what is not a function throws.\<close>

definition call_function :: "host \<Rightarrow> jsval \<Rightarrow> jsval \<Rightarrow> jsval list \<Rightarrow> heap \<Rightarrow> (jsval, heap) res" where
  "call_function H f this args h =
     (if typeof f = ''function'' then fcall H f this args h else Throw NativeTypeError h)"

text \<open>The expressions \<^verbatim>\<open>v[k]\<close> and \<^verbatim>\<open>Object.keys(v)\<close> for any value \<open>v\<close>.\<close>

definition read :: "host \<Rightarrow> jsval \<Rightarrow> string \<Rightarrow> heap \<Rightarrow> (jsval, heap) res" where
  "read H v k h =
     (case v of
        Undefined \<Rightarrow> Throw NativeTypeError h
      | Null \<Rightarrow> Throw NativeTypeError h
      | Obj r \<Rightarrow> if k = ''__proto__'' then Ok (prop_of H v k h) h else get v k h
      | _ \<Rightarrow> Ok (prop_of H v k h) h)"

definition object_keys :: "host \<Rightarrow> jsval \<Rightarrow> heap \<Rightarrow> (string list, heap) res" where
  "object_keys H v h =
     (case v of
        Undefined \<Rightarrow> Throw NativeTypeError h
      | Null \<Rightarrow> Throw NativeTypeError h
      | Obj r \<Rightarrow> Ok (keys h r) h
      | _ \<Rightarrow> Ok (keys_of H v h) h)"

text \<open>
  The assignment \<^verbatim>\<open>o[k] = v\<close> to an object that the combinator has created with \<^verbatim>\<open>{}\<close>.
\<close>

definition assign :: "host \<Rightarrow> nat \<Rightarrow> string \<Rightarrow> jsval \<Rightarrow> heap \<Rightarrow> heap" where
  "assign H r k v h = (if k = ''__proto__'' then adopt H r v h else set_prop r k v h)"

subsection \<open>The error for a reducer that returns \<^verbatim>\<open>undefined\<close>\<close>

text \<open>
  \<^verbatim>\<open>action && action.type\<close>, then the description of the action, which is
  \<^verbatim>\<open>String(actionType)\<close> in quotes when the type is truthy. The error carries the key and
  that string.
\<close>

definition getUndefinedStateErrorMessage :: "host \<Rightarrow> string \<Rightarrow> jsval \<Rightarrow> heap \<Rightarrow> (error, heap) res" where
  "getUndefinedStateErrorMessage H key action h =
     (case (if truthy action then read H action ''type'' h else Ok action h) of
        Diverge \<Rightarrow> Diverge
      | Throw e h' \<Rightarrow> Throw e h'
      | Ok actionType h' \<Rightarrow>
          if truthy actionType
          then (case to_string H actionType h' of
                  Diverge \<Rightarrow> Diverge
                | Throw e h'' \<Rightarrow> Throw e h''
                | Ok s h'' \<Rightarrow> Ok (UndefinedState key (Some s)) h'')
          else Ok (UndefinedState key None) h')"

subsection \<open>The warning about the shape of the state\<close>

text \<open>The test \<^verbatim>\<open>action && action.type === t\<close>.\<close>

definition has_type :: "host \<Rightarrow> jsval \<Rightarrow> string \<Rightarrow> heap \<Rightarrow> (bool, heap) res" where
  "has_type H action t h =
     (if truthy action
      then (case read H action ''type'' h of
              Diverge \<Rightarrow> Diverge
            | Throw e h' \<Rightarrow> Throw e h'
            | Ok v h' \<Rightarrow> Ok (strict_eq v (Str t)) h')
      else Ok False h)"

text \<open>
  The filter \<^verbatim>\<open>key => !reducers.hasOwnProperty(key) && !unexpectedKeyCache[key]\<close> over the
  keys of the state. The method is looked up in \<^verbatim>\<open>reducers\<close>: a reducer of the name
  \<^verbatim>\<open>hasOwnProperty\<close> is called in the place of the built-in method. \<^verbatim>\<open>unexpectedKeyCache\<close>
  is \<^verbatim>\<open>undefined\<close> (\<open>None\<close>) in a production build.
\<close>

fun unexpected_keys ::
  "host \<Rightarrow> jsval \<Rightarrow> nat option \<Rightarrow> string list \<Rightarrow> heap \<Rightarrow> (string list, heap) res" where
  "unexpected_keys H reducers cache [] h = Ok [] h"
| "unexpected_keys H reducers cache (key # ks) h =
     (case read H reducers ''hasOwnProperty'' h of
        Diverge \<Rightarrow> Diverge
      | Throw e h0 \<Rightarrow> Throw e h0
      | Ok hasOwn h0 \<Rightarrow>
          (case call_function H hasOwn reducers [Str key] h0 of
             Diverge \<Rightarrow> Diverge
           | Throw e h1 \<Rightarrow> Throw e h1
           | Ok has h1 \<Rightarrow>
               (case (if truthy has then Ok False h1
                      else (case read H (case cache of None \<Rightarrow> Undefined | Some a \<Rightarrow> Obj a) key h1 of
                              Diverge \<Rightarrow> Diverge
                            | Throw e h2 \<Rightarrow> Throw e h2
                            | Ok seen h2 \<Rightarrow> Ok (\<not> truthy seen) h2)) of
                  Diverge \<Rightarrow> Diverge
                | Throw e h2 \<Rightarrow> Throw e h2
                | Ok unexpected h2 \<Rightarrow>
                    (case unexpected_keys H reducers cache ks h2 of
                       Diverge \<Rightarrow> Diverge
                     | Throw e h3 \<Rightarrow> Throw e h3
                     | Ok rest h3 \<Rightarrow> Ok (if unexpected then key # rest else rest) h3))))"

text \<open>The loop \<^verbatim>\<open>unexpectedKeys.forEach(key => { unexpectedKeyCache[key] = true })\<close>.\<close>

fun mark_keys :: "host \<Rightarrow> nat option \<Rightarrow> string list \<Rightarrow> heap \<Rightarrow> (unit, heap) res" where
  "mark_keys H cache [] h = Ok () h"
| "mark_keys H cache (key # ks) h =
     (case cache of
        None \<Rightarrow> Throw NativeTypeError h
      | Some a \<Rightarrow> mark_keys H cache ks (assign H a key (JBool True) h))"

text \<open>
  The result is the message, if there is one. The Boolean in a message says that the
  action is the \<^verbatim>\<open>INIT\<close> action, which decides how the message names the state.
\<close>

definition getUnexpectedStateShapeWarningMessage ::
  "host \<Rightarrow> action_types \<Rightarrow> jsval \<Rightarrow> jsval \<Rightarrow> jsval \<Rightarrow> nat option \<Rightarrow> heap \<Rightarrow> (message option, heap) res" where
  "getUnexpectedStateShapeWarningMessage H T inputState reducers action unexpectedKeyCache h =
     (case object_keys H reducers h of
        Diverge \<Rightarrow> Diverge
      | Throw e h0 \<Rightarrow> Throw e h0
      | Ok reducerKeys h0 \<Rightarrow>
     (case has_type H action (INIT T) h0 of
        Diverge \<Rightarrow> Diverge
      | Throw e h1 \<Rightarrow> Throw e h1
      | Ok isInit h1 \<Rightarrow>
          if length reducerKeys = 0 then Ok (Some NoValidReducer) h1
          else
            (case isPlainObject h1 inputState of
               None \<Rightarrow> Diverge
             | Some plain \<Rightarrow>
                 if \<not> plain
                 then (case type_name H inputState h1 of
                         Diverge \<Rightarrow> Diverge
                       | Throw e h2 \<Rightarrow> Throw e h2
                       | Ok name h2 \<Rightarrow> Ok (Some (UnexpectedType isInit name reducerKeys)) h2)
                 else
     (case object_keys H inputState h1 of
        Diverge \<Rightarrow> Diverge
      | Throw e h2 \<Rightarrow> Throw e h2
      | Ok stateKeys h2 \<Rightarrow>
     (case unexpected_keys H reducers unexpectedKeyCache stateKeys h2 of
        Diverge \<Rightarrow> Diverge
      | Throw e h3 \<Rightarrow> Throw e h3
      | Ok unexpectedKeys h3 \<Rightarrow>
     (case mark_keys H unexpectedKeyCache unexpectedKeys h3 of
        Diverge \<Rightarrow> Diverge
      | Throw e h4 \<Rightarrow> Throw e h4
      | Ok u h4 \<Rightarrow>
     (case has_type H action (REPLACE T) h4 of
        Diverge \<Rightarrow> Diverge
      | Throw e h5 \<Rightarrow> Throw e h5
      | Ok isReplace h5 \<Rightarrow>
          if isReplace then Ok None h5
          else if length unexpectedKeys > 0
          then Ok (Some (UnexpectedKeys unexpectedKeys isInit reducerKeys)) h5
          else Ok None h5)))))))"

subsection \<open>The validation of the reducers\<close>

text \<open>
  \<^verbatim>\<open>Object.keys(reducers).forEach(...)\<close>: every reducer is read when its turn comes and
  is called with the \<^verbatim>\<open>INIT\<close> action and with an action of a random type.
\<close>

fun assertReducerShape_forEach ::
  "host \<Rightarrow> action_types \<Rightarrow> jsval \<Rightarrow> string list \<Rightarrow> heap \<Rightarrow> (unit, heap) res" where
  "assertReducerShape_forEach H T reducers [] h = Ok () h"
| "assertReducerShape_forEach H T reducers (key # rest) h =
     (case read H reducers key h of
        Diverge \<Rightarrow> Diverge
      | Throw e h0 \<Rightarrow> Throw e h0
      | Ok reducer h0 \<Rightarrow>
          (let (a, h1) = literal [(''type'', Str (INIT T))] h0
           in case call_function H reducer Undefined [Undefined, Obj a] h1 of
                Diverge \<Rightarrow> Diverge
              | Throw e h2 \<Rightarrow> Throw e h2
              | Ok initialState h2 \<Rightarrow>
                  if typeof initialState = ''undefined'' then Throw (UndefinedDuringInit key) h2
                  else
                    (let (b, h3) = literal [(''type'', Str (PROBE_UNKNOWN_ACTION T (rng h2)))]
                                     (h2\<lparr>rng := Suc (rng h2)\<rparr>)
                     in case call_function H reducer Undefined [Undefined, Obj b] h3 of
                          Diverge \<Rightarrow> Diverge
                        | Throw e h4 \<Rightarrow> Throw e h4
                        | Ok probed h4 \<Rightarrow>
                            if typeof probed = ''undefined'' then Throw (UndefinedWhenProbed key) h4
                            else assertReducerShape_forEach H T reducers rest h4)))"

definition assertReducerShape :: "host \<Rightarrow> action_types \<Rightarrow> jsval \<Rightarrow> heap \<Rightarrow> (unit, heap) res" where
  "assertReducerShape H T reducers h =
     (case object_keys H reducers h of
        Diverge \<Rightarrow> Diverge
      | Throw e h' \<Rightarrow> Throw e h'
      | Ok ks h' \<Rightarrow> assertReducerShape_forEach H T reducers ks h')"

subsection \<open>combineReducers\<close>

text \<open>
  The first loop of \<^verbatim>\<open>combineReducers\<close> over \<^verbatim>\<open>reducerKeys\<close>. \<^verbatim>\<open>reducers[key]\<close> is
  read for the warning and again for the test and the assignment.
\<close>

fun filterReducers :: "host \<Rightarrow> jsval \<Rightarrow> string list \<Rightarrow> nat \<Rightarrow> heap \<Rightarrow> (unit, heap) res" where
  "filterReducers H reducers [] finalReducers h = Ok () h"
| "filterReducers H reducers (key # ks) finalReducers h =
     (case (if production H then Ok () h
            else (case read H reducers key h of
                    Diverge \<Rightarrow> Diverge
                  | Throw e h' \<Rightarrow> Throw e h'
                  | Ok v h' \<Rightarrow>
                      if typeof v = ''undefined'' then warning H (NoReducerProvided key) h'
                      else Ok () h')) of
        Diverge \<Rightarrow> Diverge
      | Throw e h1 \<Rightarrow> Throw e h1
      | Ok u h1 \<Rightarrow>
          (case read H reducers key h1 of
             Diverge \<Rightarrow> Diverge
           | Throw e h2 \<Rightarrow> Throw e h2
           | Ok v h2 \<Rightarrow>
               filterReducers H reducers ks finalReducers
                 (if typeof v = ''function'' then assign H finalReducers key v h2 else h2)))"

text \<open>
  What the closure \<^verbatim>\<open>combination\<close> has captured: the object \<^verbatim>\<open>finalReducers\<close>, the
  array of its keys, the object \<^verbatim>\<open>unexpectedKeyCache\<close>, and the error of the validation.
\<close>

record combined =
  finalReducers :: nat
  finalReducerKeys :: "string list"
  unexpectedKeyCache :: "nat option"
  shapeAssertionError :: "error option"

text \<open>
  The statements of \<^verbatim>\<open>combineReducers\<close> before the validation, and the whole. An error
  that the validation throws is caught and kept.
\<close>

definition collectReducers :: "host \<Rightarrow> jsval \<Rightarrow> heap \<Rightarrow> (combined, heap) res" where
  "collectReducers H reducers h =
     (case object_keys H reducers h of
        Diverge \<Rightarrow> Diverge
      | Throw e h0 \<Rightarrow> Throw e h0
      | Ok reducerKeys h0 \<Rightarrow>
          (let (fr, h1) = literal [] h0
           in case filterReducers H reducers reducerKeys fr h1 of
                Diverge \<Rightarrow> Diverge
              | Throw e h2 \<Rightarrow> Throw e h2
              | Ok u h2 \<Rightarrow>
                  (let ks = keys h2 fr
                   in if production H
                      then Ok \<lparr>finalReducers = fr, finalReducerKeys = ks,
                               unexpectedKeyCache = None, shapeAssertionError = None\<rparr> h2
                      else (let (a, h3) = literal [] h2
                            in Ok \<lparr>finalReducers = fr, finalReducerKeys = ks,
                                   unexpectedKeyCache = Some a, shapeAssertionError = None\<rparr> h3))))"

definition combineReducers :: "host \<Rightarrow> action_types \<Rightarrow> jsval \<Rightarrow> heap \<Rightarrow> (combined, heap) res" where
  "combineReducers H T reducers h =
     (case collectReducers H reducers h of
        Diverge \<Rightarrow> Diverge
      | Throw e h3 \<Rightarrow> Throw e h3
      | Ok c h3 \<Rightarrow>
          (case assertReducerShape H T (Obj (finalReducers c)) h3 of
             Diverge \<Rightarrow> Diverge
           | Throw e h4 \<Rightarrow> Ok (c\<lparr>shapeAssertionError := Some e\<rparr>) h4
           | Ok u h4 \<Rightarrow> Ok c h4))"

subsection \<open>The combination\<close>

text \<open>An \<^verbatim>\<open>Error\<close> object is truthy; a value that user code threw may not be.\<close>

fun error_truthy :: "error \<Rightarrow> bool" where
  "error_truthy (Thrown v) = truthy v"
| "error_truthy e = True"

text \<open>The default parameter \<^verbatim>\<open>state = {}\<close>: a new object when the argument is \<^verbatim>\<open>undefined\<close>.\<close>

definition default_state :: "jsval \<Rightarrow> heap \<Rightarrow> jsval \<times> heap" where
  "default_state state h =
     (if state = Undefined then (let (r, h') = literal [] h in (Obj r, h')) else (state, h))"

text \<open>
  The statement \<^verbatim>\<open>if (process.env.NODE_ENV !== 'production') { ... }\<close> of \<^verbatim>\<open>combination\<close>.
\<close>

definition warn_state_shape ::
  "host \<Rightarrow> action_types \<Rightarrow> combined \<Rightarrow> jsval \<Rightarrow> jsval \<Rightarrow> heap \<Rightarrow> (unit, heap) res" where
  "warn_state_shape H T c state action h =
     (if production H then Ok () h
      else
        (case getUnexpectedStateShapeWarningMessage H T state (Obj (finalReducers c)) action
                (unexpectedKeyCache c) h of
           Diverge \<Rightarrow> Diverge
         | Throw e h' \<Rightarrow> Throw e h'
         | Ok warningMessage h' \<Rightarrow>
             (case warningMessage of
                None \<Rightarrow> Ok () h'
              | Some m \<Rightarrow> warning H m h')))"

text \<open>
  The loop of \<^verbatim>\<open>combination\<close> over \<^verbatim>\<open>finalReducerKeys\<close>; it returns \<^verbatim>\<open>hasChanged\<close>.
\<close>

fun combination_loop ::
  "host \<Rightarrow> jsval \<Rightarrow> string list \<Rightarrow> jsval \<Rightarrow> jsval \<Rightarrow> nat \<Rightarrow> bool \<Rightarrow> heap \<Rightarrow> (bool, heap) res" where
  "combination_loop H reducers [] state action nextState hasChanged h = Ok hasChanged h"
| "combination_loop H reducers (key # rest) state action nextState hasChanged h =
     (case read H reducers key h of
        Diverge \<Rightarrow> Diverge
      | Throw e h0 \<Rightarrow> Throw e h0
      | Ok reducer h0 \<Rightarrow>
     (case read H state key h0 of
        Diverge \<Rightarrow> Diverge
      | Throw e h1 \<Rightarrow> Throw e h1
      | Ok previousStateForKey h1 \<Rightarrow>
          (case call_function H reducer Undefined [previousStateForKey, action] h1 of
             Diverge \<Rightarrow> Diverge
           | Throw e h2 \<Rightarrow> Throw e h2
           | Ok nextStateForKey h2 \<Rightarrow>
               if typeof nextStateForKey = ''undefined''
               then
                 (case getUndefinedStateErrorMessage H key action h2 of
                    Diverge \<Rightarrow> Diverge
                  | Throw e h3 \<Rightarrow> Throw e h3
                  | Ok errorMessage h3 \<Rightarrow> Throw errorMessage h3)
               else
                 combination_loop H reducers rest state action nextState
                   (hasChanged \<or> \<not> strict_eq nextStateForKey previousStateForKey)
                   (assign H nextState key nextStateForKey h2))))"

definition combination ::
  "host \<Rightarrow> action_types \<Rightarrow> combined \<Rightarrow> jsval \<Rightarrow> jsval \<Rightarrow> heap \<Rightarrow> (jsval, heap) res" where
  "combination H T c state0 action h0 =
     (let (state, h) = default_state state0 h0
      in case (case shapeAssertionError c of
                 None \<Rightarrow> None
               | Some e \<Rightarrow> if error_truthy e then Some e else None) of
           Some e \<Rightarrow> Throw e h
         | None \<Rightarrow>
             (case warn_state_shape H T c state action h of
                Diverge \<Rightarrow> Diverge
              | Throw e h1 \<Rightarrow> Throw e h1
              | Ok u h1 \<Rightarrow>
                  (let (nextState, h2) = literal [] h1
                   in case combination_loop H (Obj (finalReducers c)) (finalReducerKeys c)
                             state action nextState False h2 of
                        Diverge \<Rightarrow> Diverge
                      | Throw e h3 \<Rightarrow> Throw e h3
                      | Ok hasChanged h3 \<Rightarrow> Ok (if hasChanged then Obj nextState else state) h3)))"

section \<open>The function pipe (compose.js)\<close>

text \<open>\<^verbatim>\<open>funcs.reduce(f)\<close> starts from the first element and folds the others from the left.\<close>

definition compose :: "('a \<Rightarrow> 'a) list \<Rightarrow> 'a \<Rightarrow> 'a" where
  "compose funcs =
     (if length funcs = 0 then (\<lambda>arg. arg)
      else if length funcs = 1 then funcs ! 0
      else foldl (\<lambda>a b. (\<lambda>args. a (b args))) (hd funcs) (tl funcs))"

section \<open>The middleware pipeline (applyMiddleware.js)\<close>

text \<open>
  A middleware takes the \<^verbatim>\<open>middlewareAPI\<close>, then \<^verbatim>\<open>next\<close>, then the action. The
  \<^verbatim>\<open>dispatch\<close> of the API calls whatever the variable \<^verbatim>\<open>dispatch\<close> holds at the time
  of the call, which after construction is the composed chain itself: \<open>chain_dispatch\<close>
  is that chain, the bound \<open>n\<close> limiting how often a middleware re-enters it through the
  API. A middleware is a function here, so it calls nothing before it is given an action,
  and the \<^verbatim>\<open>dispatch\<close> that throws while the chain is being built is never called.
\<close>

record middlewareAPI =
  api_getState :: "world \<Rightarrow> (jsval, world) res"
  api_dispatch :: "jsval \<Rightarrow> world \<Rightarrow> (jsval, world) res"

type_synonym dispatcher = "jsval \<Rightarrow> world \<Rightarrow> (jsval, world) res"

type_synonym middleware = "middlewareAPI \<Rightarrow> dispatcher \<Rightarrow> dispatcher"

fun chain_dispatch :: "middleware list \<Rightarrow> store \<Rightarrow> nat \<Rightarrow> dispatcher" where
  "chain_dispatch middlewares st 0 = (\<lambda>action w. Diverge)"
| "chain_dispatch middlewares st (Suc n) =
     (let middlewareAPI = \<lparr>api_getState = store_getState st,
                           api_dispatch = chain_dispatch middlewares st n\<rparr>;
          chain = map (\<lambda>middleware. middleware middlewareAPI) middlewares
      in compose chain (store_dispatch st n))"

definition applyMiddleware :: "middleware list \<Rightarrow> creator \<Rightarrow> creator" where
  "applyMiddleware middlewares createStore' args w =
     (case createStore' args w of
        Diverge \<Rightarrow> Diverge
      | Throw e w' \<Rightarrow> Throw e w'
      | Ok st w' \<Rightarrow> Ok (st\<lparr>store_dispatch := chain_dispatch middlewares st\<rparr>) w')"

section \<open>Notions used in the properties\<close>

definition callable :: "jsval \<Rightarrow> bool" where
  "callable v = (typeof v = ''function'')"

definition fails_with :: "error_kind \<Rightarrow> ('a, 'w) res \<Rightarrow> bool" where
  "fails_with k r = (case r of Throw e w \<Rightarrow> kind e = k | _ \<Rightarrow> False)"

text \<open>An action that \<^verbatim>\<open>dispatch\<close> accepts: a plain object whose \<^verbatim>\<open>type\<close> is not \<^verbatim>\<open>undefined\<close>.\<close>

definition valid_action :: "heap \<Rightarrow> jsval \<Rightarrow> bool" where
  "valid_action h a =
     (isPlainObject h a = Some True \<and>
      (case get a ''type'' h of Ok t h' \<Rightarrow> typeof t \<noteq> ''undefined'' | _ \<Rightarrow> False))"

text \<open>A heap with \<^verbatim>\<open>Object.prototype\<close> only, and a world in which no store exists yet.\<close>

definition heap0 :: heap where
  "heap0 = \<lparr>objs = [\<lparr>proto = None, props = []\<rparr>], rng = 0, journal = []\<rparr>"

definition world0 :: world where
  "world0 = \<lparr>hp = heap0, currentReducer = Undefined, currentState = Undefined,
             currentListeners = None, nextListeners = 0, isDispatching = False,
             arrays = [], subscriptions = []\<rparr>"

text \<open>
  An environment in which every function returns its first argument when it is called as
  a reducer or a listener, and returns the creator it is given when it is used as an
  enhancer.
\<close>

definition identity_env :: env where
  "identity_env = \<lparr>body = (\<lambda>f args. Return (arg 0 args)),
                   enhance = (\<lambda>f createStore'. createStore'),
                   randomString = (\<lambda>n. ''x'')\<rparr>"

text \<open>
  A heap that also holds the prototype object of a class at address \<open>1\<close>, the actions
  \<^verbatim>\<open>{type: 'go'}\<close> and \<^verbatim>\<open>{type: 'boom'}\<close> at \<open>2\<close> and \<open>3\<close>, the object \<^verbatim>\<open>{}\<close> at
  \<open>4\<close>, and an instance of the class with \<^verbatim>\<open>type: 'go'\<close> at \<open>5\<close>. And a store over it
  whose reducer is the function \<open>0\<close>, with state \<open>0\<close> and no listeners.
\<close>

definition heap1 :: heap where
  "heap1 = \<lparr>objs = [\<lparr>proto = None, props = []\<rparr>,
                     \<lparr>proto = Some ObjectPrototype, props = []\<rparr>,
                     \<lparr>proto = Some ObjectPrototype, props = [(''type'', Str ''go'')]\<rparr>,
                     \<lparr>proto = Some ObjectPrototype, props = [(''type'', Str ''boom'')]\<rparr>,
                     \<lparr>proto = Some ObjectPrototype, props = []\<rparr>,
                     \<lparr>proto = Some 1, props = [(''type'', Str ''go'')]\<rparr>],
            rng = 0, journal = []\<rparr>"

definition world1 :: world where
  "world1 = \<lparr>hp = heap1, currentReducer = Fn 0, currentState = Num 0,
             currentListeners = Some 0, nextListeners = 0, isDispatching = False,
             arrays = [[]], subscriptions = []\<rparr>"

text \<open>
  An environment in which every function is a reducer that throws on an action of type
  \<^verbatim>\<open>'boom'\<close> and returns the state it is given on any other action.
\<close>

definition boom_env :: env where
  "boom_env =
     \<lparr>body = (\<lambda>f args. Call (HeapOp (get (arg 1 args) ''type''))
                 (\<lambda>r. case r of
                         Returned t \<Rightarrow>
                           if t = Str ''boom'' then Raise (Thrown (Str ''boom''))
                           else Return (arg 0 args)
                       | _ \<Rightarrow> Return (arg 0 args))),
      enhance = (\<lambda>f createStore'. createStore'),
      randomString = (\<lambda>n. ''x'')\<rparr>"

text \<open>
  An environment in which every function makes the call \<open>c\<close>, lets an error of that call
  propagate, and otherwise returns its first argument.
\<close>

definition calling_env :: "call \<Rightarrow> env" where
  "calling_env c =
     \<lparr>body = (\<lambda>f args. Call c (\<lambda>r. case r of Failed e \<Rightarrow> Raise e | _ \<Rightarrow> Return (arg 0 args))),
      enhance = (\<lambda>f createStore'. createStore'),
      randomString = (\<lambda>n. ''x'')\<rparr>"

text \<open>
  The calls that a function body makes when it runs from the state \<open>w\<close>, in order, each
  with the state in which it is made and its outcome. It follows \<open>exec\<close>.
\<close>

fun made :: "nat \<Rightarrow> env \<Rightarrow> prog \<Rightarrow> world \<Rightarrow> (call \<times> world \<times> (reply, world) res) list" where
  "made n E (Return v) w = []"
| "made n E (Raise e) w = []"
| "made 0 E (Call c k) w = []"
| "made (Suc n) E (Call c k) w =
     (c, w, run_call n E c w) #
       (case run_call n E c w of
          Diverge \<Rightarrow> []
        | Throw e w' \<Rightarrow> made n E (k (Failed e)) w'
        | Ok r w' \<Rightarrow> made n E (k r) w')"

text \<open>
  An environment in which every function, used as a reducer, calls \<^verbatim>\<open>getState\<close> and then
  \<^verbatim>\<open>dispatch\<close> with the action \<open>a\<close>, catches what they throw, and returns the state it
  was given.
\<close>

definition probing_env :: "jsval \<Rightarrow> env" where
  "probing_env a =
     \<lparr>body = (\<lambda>f args. Call GetState (\<lambda>r. Call (Dispatch a) (\<lambda>r'. Return (arg 0 args)))),
      enhance = (\<lambda>f createStore'. createStore'),
      randomString = (\<lambda>n. ''x'')\<rparr>"

text \<open>
  The store variables that nothing can change while the reducer runs.
\<close>

definition same_store :: "world \<Rightarrow> world \<Rightarrow> bool" where
  "same_store w w' =
     (isDispatching w' = isDispatching w \<and> currentState w' = currentState w \<and>
      currentListeners w' = currentListeners w \<and> nextListeners w' = nextListeners w \<and>
      arrays w' = arrays w \<and> subscriptions w' = subscriptions w)"

text \<open>The state that a call leaves behind, if it returns or throws.\<close>

definition final :: "('a, 'w) res \<Rightarrow> 'w option" where
  "final r = (case r of Diverge \<Rightarrow> None | Throw e w \<Rightarrow> Some w | Ok v w \<Rightarrow> Some w)"

text \<open>
  What protects the array \<open>A\<close> while a loop runs over it: it exists, and if
  \<open>nextListeners\<close> refers to it then so does \<open>currentListeners\<close>, so that the next
  mutation copies it first. \<open>protects\<close> relates the states before and after a call
  that keeps this and leaves the array as it is.
\<close>

definition guarded :: "nat \<Rightarrow> world \<Rightarrow> bool" where
  "guarded A w = (A < length (arrays w) \<and> (nextListeners w = A \<longrightarrow> currentListeners w = Some A))"

definition protects :: "nat \<Rightarrow> world \<Rightarrow> world \<Rightarrow> bool" where
  "protects A w w' = (guarded A w \<longrightarrow> guarded A w' \<and> array_at w' A = array_at w A)"

text \<open>
  A store with the listeners \<open>1\<close> and \<open>2\<close>, subscribed in this order. Listener \<open>1\<close>
  calls the \<^verbatim>\<open>unsubscribe\<close> closure of listener \<open>2\<close> and then subscribes the function
  \<open>3\<close>; every other function returns its first argument. \<open>world2_after\<close> is the store
  after one dispatch.
\<close>

definition listeners_env :: env where
  "listeners_env =
     \<lparr>body = (\<lambda>f args.
                if f = 1
                then Call (Unsubscribe 1) (\<lambda>r. Call (Subscribe (Fn 3)) (\<lambda>r'. Return Undefined))
                else Return (arg 0 args)),
      enhance = (\<lambda>f createStore'. createStore'),
      randomString = (\<lambda>n. ''x'')\<rparr>"

definition world2 :: world where
  "world2 = \<lparr>hp = heap1, currentReducer = Fn 0, currentState = Num 0,
             currentListeners = Some 0, nextListeners = 0, isDispatching = False,
             arrays = [[Fn 1, Fn 2]],
             subscriptions = [\<lparr>listener = Fn 1, isSubscribed = True\<rparr>,
                              \<lparr>listener = Fn 2, isSubscribed = True\<rparr>]\<rparr>"

definition world2_after :: world where
  "world2_after = \<lparr>hp = heap1, currentReducer = Fn 0, currentState = Num 0,
             currentListeners = None, nextListeners = 1, isDispatching = False,
             arrays = [[Fn 1, Fn 2], [Fn 1, Fn 3]],
             subscriptions = [\<lparr>listener = Fn 1, isSubscribed = True\<rparr>,
                              \<lparr>listener = Fn 2, isSubscribed = False\<rparr>,
                              \<lparr>listener = Fn 3, isSubscribed = True\<rparr>]\<rparr>"

text \<open>
  A reducer in the sense of the specification, a function of the state and the action
  that may allocate: its body makes no call into the store.
\<close>

type_synonym reducer = "jsval \<Rightarrow> jsval \<Rightarrow> heap \<Rightarrow> (jsval, heap) res"

definition pure_reducer :: "reducer \<Rightarrow> jsval list \<Rightarrow> prog" where
  "pure_reducer r args =
     Call (HeapOp (r (arg 0 args) (arg 1 args)))
       (\<lambda>reply. case reply of
                   Returned v \<Rightarrow> Return v
                 | Failed e \<Rightarrow> Raise e
                 | Handle u \<Rightarrow> Return Undefined)"

text \<open>
  The reducer folded over a list of actions from a state, and the condition that each of
  the actions is one that \<open>dispatch\<close> accepts at the time when its turn comes.
\<close>

fun reduce_actions :: "reducer \<Rightarrow> jsval list \<Rightarrow> jsval \<Rightarrow> heap \<Rightarrow> (jsval, heap) res" where
  "reduce_actions r [] s h = Ok s h"
| "reduce_actions r (a # as) s h =
     (case r s a h of
        Diverge \<Rightarrow> Diverge
      | Throw e h' \<Rightarrow> Throw e h'
      | Ok s' h' \<Rightarrow> reduce_actions r as s' h')"

fun valid_actions :: "reducer \<Rightarrow> jsval list \<Rightarrow> jsval \<Rightarrow> heap \<Rightarrow> bool" where
  "valid_actions r [] s h = True"
| "valid_actions r (a # as) s h =
     (valid_action h a \<and>
      (case r s a h of Ok s' h' \<Rightarrow> valid_actions r as s' h' | _ \<Rightarrow> True))"

text \<open>Dispatching a list of actions to a store, one after the other.\<close>

fun dispatch_all :: "store \<Rightarrow> nat \<Rightarrow> jsval list \<Rightarrow> world \<Rightarrow> (unit, world) res" where
  "dispatch_all st n [] w = Ok () w"
| "dispatch_all st n (a # as) w =
     (case store_dispatch st n a w of
        Diverge \<Rightarrow> Diverge
      | Throw e w' \<Rightarrow> Throw e w'
      | Ok v w' \<Rightarrow> dispatch_all st n as w')"

text \<open>A store without listeners whose reducer is the function \<open>f\<close>, between dispatches.\<close>

definition silent :: "nat \<Rightarrow> world \<Rightarrow> bool" where
  "silent f w =
     (currentReducer w = Fn f \<and> \<not> isDispatching w \<and> array_at w (nextListeners w) = [])"

text \<open>
  An environment whose functions are the counter: a reducer that adds one to a number on
  the action \<^verbatim>\<open>{type: 'go'}\<close>, starts from \<open>0\<close>, and returns its state otherwise.
\<close>

definition counter :: reducer where
  "counter s a h =
     (case get a ''type'' h of
        Diverge \<Rightarrow> Diverge
      | Throw e h' \<Rightarrow> Throw e h'
      | Ok t h' \<Rightarrow>
          (case s of
             Num i \<Rightarrow> Ok (if t = Str ''go'' then Num (i + 1) else Num i) h'
           | _ \<Rightarrow> Ok (Num 0) h'))"

definition counter_env :: env where
  "counter_env = \<lparr>body = (\<lambda>f. pure_reducer counter),
                  enhance = (\<lambda>f createStore'. createStore'),
                  randomString = (\<lambda>n. ''x'')\<rparr>"

text \<open>
  What the loop of \<open>combination\<close> sees, in order: for each key the previous value of
  the slice and the value that the reducer of the key returns for it. The list ends
  where reading the reducer or the slice or calling the reducer does not return a value
  or the reducer returns \<^verbatim>\<open>undefined\<close>, where the loop ends as well.
\<close>

fun slices ::
  "host \<Rightarrow> jsval \<Rightarrow> string list \<Rightarrow> jsval \<Rightarrow> jsval \<Rightarrow> nat \<Rightarrow> heap \<Rightarrow> (string \<times> jsval \<times> jsval) list" where
  "slices H reducers [] state action nextState h = []"
| "slices H reducers (key # rest) state action nextState h =
     (case read H reducers key h of
        Ok reducer h0 \<Rightarrow>
          (case read H state key h0 of
             Ok previousStateForKey h1 \<Rightarrow>
               (case call_function H reducer Undefined [previousStateForKey, action] h1 of
                  Ok nextStateForKey h2 \<Rightarrow>
                    (key, previousStateForKey, nextStateForKey) #
                      (if typeof nextStateForKey = ''undefined'' then []
                       else slices H reducers rest state action nextState
                              (assign H nextState key nextStateForKey h2))
                | _ \<Rightarrow> [])
           | _ \<Rightarrow> [])
      | _ \<Rightarrow> [])"

text \<open>
  The slices of a call of \<open>combination\<close> when the loop starts in the heap \<open>h\<close>, after
  \<^verbatim>\<open>nextState\<close> has been allocated. \<open>changed\<close> says that some reducer has returned a
  value that is not identical to the previous value of its slice, \<open>composite\<close> is the
  list of the keys with the values returned.
\<close>

definition slices_of :: "host \<Rightarrow> combined \<Rightarrow> jsval \<Rightarrow> jsval \<Rightarrow> heap \<Rightarrow> (string \<times> jsval \<times> jsval) list" where
  "slices_of H c state action h =
     slices H (Obj (finalReducers c)) (finalReducerKeys c) state action (length (objs h))
       (snd (literal [] h))"

definition changed :: "(string \<times> jsval \<times> jsval) list \<Rightarrow> bool" where
  "changed xs = list_ex (\<lambda>(key, previous, next). \<not> strict_eq next previous) xs"

definition all_defined :: "(string \<times> jsval \<times> jsval) list \<Rightarrow> bool" where
  "all_defined xs = list_all (\<lambda>(key, previous, next). typeof next \<noteq> ''undefined'') xs"

definition composite :: "(string \<times> jsval \<times> jsval) list \<Rightarrow> (string \<times> jsval) list" where
  "composite xs = map (\<lambda>(key, previous, next). (key, next)) xs"

text \<open>
  Functions that are pure: a call allocates at most, it changes no object that exists.
  Warnings that are harmless: the function \<^verbatim>\<open>warning\<close> returns and changes no object.
\<close>

definition allocates_only :: "host \<Rightarrow> bool" where
  "allocates_only H =
     (\<forall>f this args h v h'. fcall H f this args h = Ok v h' \<longrightarrow>
        length (objs h) \<le> length (objs h') \<and> (\<forall>r < length (objs h). objs h' ! r = objs h ! r))"

definition harmless_warnings :: "host \<Rightarrow> bool" where
  "harmless_warnings H = (\<forall>m h. \<exists>h'. warning H m h = Ok () h' \<and> objs h' = objs h)"

text \<open>The keys of an object whose value is a function, in the order of the keys.\<close>

definition function_keys :: "heap \<Rightarrow> nat \<Rightarrow> string list" where
  "function_keys h m =
     filter (\<lambda>k. typeof (case map_of (props (obj_at h m)) k of None \<Rightarrow> Undefined | Some v \<Rightarrow> v)
                   = ''function'')
       (keys h m)"

text \<open>
  Functions for the examples: function \<open>0\<close> returns its state, or \<open>0\<close> when there is
  none; function \<open>1\<close> is the counter; function \<open>2\<close> returns \<^verbatim>\<open>undefined\<close> on the action
  \<^verbatim>\<open>{type: 'boom'}\<close> and behaves as function \<open>0\<close> otherwise; function \<open>9\<close> is the
  built-in method \<^verbatim>\<open>hasOwnProperty\<close>; every other function returns \<^verbatim>\<open>undefined\<close>.
\<close>

definition keep :: reducer where
  "keep s a h = Ok (if s = Undefined then Num 0 else s) h"

definition fragile :: reducer where
  "fragile s a h =
     (case get a ''type'' h of
        Diverge \<Rightarrow> Diverge
      | Throw e h' \<Rightarrow> Throw e h'
      | Ok t h' \<Rightarrow> if t = Str ''boom'' then Ok Undefined h' else keep s a h')"

definition hasOwnProperty :: "jsval \<Rightarrow> jsval list \<Rightarrow> heap \<Rightarrow> (jsval, heap) res" where
  "hasOwnProperty this args h =
     (case this of
        Obj r \<Rightarrow> (case arg 0 args of
                    Str k \<Rightarrow> Ok (JBool (k \<in> set (keys h r))) h
                  | _ \<Rightarrow> Ok (JBool False) h)
      | _ \<Rightarrow> Ok (JBool False) h)"

text \<open>
  A host with these functions, in a build that is not a production build. Its strings
  have themselves as their \<^verbatim>\<open>String\<close>, and its warnings are lost.
\<close>

definition example_host :: host where
  "example_host =
     \<lparr>fcall = (\<lambda>f this args h.
                 if f = Fn 0 then keep (arg 0 args) (arg 1 args) h
                 else if f = Fn 1 then counter (arg 0 args) (arg 1 args) h
                 else if f = Fn 2 then fragile (arg 0 args) (arg 1 args) h
                 else if f = Fn 9 then hasOwnProperty this args h
                 else Ok Undefined h),
      prop_of = (\<lambda>v k h. Undefined),
      keys_of = (\<lambda>v h. []),
      to_string = (\<lambda>v h. case v of Str s \<Rightarrow> Ok s h | _ \<Rightarrow> Throw NativeTypeError h),
      type_name = (\<lambda>v h. Ok ''Object'' h),
      adopt = (\<lambda>r v h. h),
      warning = (\<lambda>m h. Ok () h),
      production = False\<rparr>"

text \<open>
  A heap for them: \<^verbatim>\<open>Object.prototype\<close> with the method \<^verbatim>\<open>hasOwnProperty\<close>, the objects
  of \<open>heap1\<close> at the addresses \<open>1\<close> to \<open>5\<close>, the reducer mapping
  \<^verbatim>\<open>{a: f0, b: f1, n: 7}\<close> at address \<open>6\<close>, the state \<^verbatim>\<open>{a: 1, b: 2, extra: 3}\<close> at \<open>7\<close>,
  the mappings \<^verbatim>\<open>{a: f0, c: f3}\<close> at \<open>8\<close> and \<^verbatim>\<open>{a: f0, d: f2}\<close> at \<open>9\<close>.
\<close>

definition heap2 :: heap where
  "heap2 = \<lparr>objs = [\<lparr>proto = None, props = [(''hasOwnProperty'', Fn 9)]\<rparr>,
                     \<lparr>proto = Some ObjectPrototype, props = []\<rparr>,
                     \<lparr>proto = Some ObjectPrototype, props = [(''type'', Str ''go'')]\<rparr>,
                     \<lparr>proto = Some ObjectPrototype, props = [(''type'', Str ''boom'')]\<rparr>,
                     \<lparr>proto = Some ObjectPrototype, props = []\<rparr>,
                     \<lparr>proto = Some 1, props = [(''type'', Str ''go'')]\<rparr>,
                     \<lparr>proto = Some ObjectPrototype,
                      props = [(''a'', Fn 0), (''b'', Fn 1), (''n'', Num 7)]\<rparr>,
                     \<lparr>proto = Some ObjectPrototype,
                      props = [(''a'', Num 1), (''b'', Num 2), (''extra'', Num 3)]\<rparr>,
                     \<lparr>proto = Some ObjectPrototype, props = [(''a'', Fn 0), (''c'', Fn 3)]\<rparr>,
                     \<lparr>proto = Some ObjectPrototype, props = [(''a'', Fn 0), (''d'', Fn 2)]\<rparr>],
            rng = 0, journal = []\<rparr>"

text \<open>
  The combination that \<^verbatim>\<open>combineReducers\<close> makes of the mapping at address \<open>6\<close>, and
  the heap that it leaves: \<^verbatim>\<open>finalReducers\<close> at address \<open>10\<close>, \<^verbatim>\<open>unexpectedKeyCache\<close>
  at \<open>11\<close>, and the four actions of the probes.
\<close>

definition combined_ab :: combined where
  "combined_ab = \<lparr>finalReducers = 10, finalReducerKeys = [''a'', ''b''],
                   unexpectedKeyCache = Some 11, shapeAssertionError = None\<rparr>"

definition heap3 :: heap where
  "heap3 = heap2\<lparr>objs := objs heap2 @
     [\<lparr>proto = Some ObjectPrototype, props = [(''a'', Fn 0), (''b'', Fn 1)]\<rparr>,
      \<lparr>proto = Some ObjectPrototype, props = []\<rparr>,
      \<lparr>proto = Some ObjectPrototype, props = [(''type'', Str ''@@redux/INITx'')]\<rparr>,
      \<lparr>proto = Some ObjectPrototype, props = [(''type'', Str ''@@redux/PROBE_UNKNOWN_ACTIONx'')]\<rparr>,
      \<lparr>proto = Some ObjectPrototype, props = [(''type'', Str ''@@redux/INITx'')]\<rparr>,
      \<lparr>proto = Some ObjectPrototype, props = [(''type'', Str ''@@redux/PROBE_UNKNOWN_ACTIONx'')]\<rparr>],
     rng := 2\<rparr>"

text \<open>The same heap after the key \<^verbatim>\<open>extra\<close> of the state has been reported.\<close>

definition heap4 :: heap where
  "heap4 = heap3\<lparr>objs := (objs heap3)
     [11 := \<lparr>proto = Some ObjectPrototype, props = [(''extra'', JBool True)]\<rparr>]\<rparr>"

definition types0 :: action_types where
  "types0 = ActionTypes (\<lambda>n. ''x'')"



text \<open>
  A pass-through middleware that appends its tag to the journal and then calls
  \<^verbatim>\<open>next\<close> with the action.
\<close>

definition record_tag :: "string \<Rightarrow> world \<Rightarrow> world" where
  "record_tag t w = w\<lparr>hp := (hp w)\<lparr>journal := journal (hp w) @ [Str t]\<rparr>\<rparr>"

definition tagging :: "string \<Rightarrow> middleware" where
  "tagging t = (\<lambda>middlewareAPI next action w. next action (record_tag t w))"

section \<open>Basic facts\<close>

lemma final_simps [simp]:
  "final Diverge = None" "final (Throw e w) = Some w" "final (Ok v w) = Some w"
  by (simp_all add: final_def)

lemma final_with_heap: "final (with_heap w r) = Some w' \<Longrightarrow> \<exists>h. w' = w\<lparr>hp := h\<rparr>"
  by (auto simp: with_heap_def split: res.splits)

lemma isPlainObject_primitive [simp]:
  "isPlainObject h Undefined = Some False"
  "isPlainObject h Null = Some False"
  "isPlainObject h (JBool b) = Some False"
  "isPlainObject h (Num i) = Some False"
  "isPlainObject h NaN = Some False"
  "isPlainObject h (Str s) = Some False"
  "isPlainObject h (Fn f) = Some False"
  by (simp_all add: isPlainObject_def)

lemma valid_actionD:
  assumes "valid_action h a"
  obtains t where "isPlainObject h a = Some True" "get a ''type'' h = Ok t h"
    "typeof t \<noteq> ''undefined''"
  using assms
  by (auto simp: valid_action_def get_def split: res.splits jsval.splits option.splits)

text \<open>What \<open>dispatch\<close> does with an action it accepts, outside and inside a reducer.\<close>

lemma dispatch_valid:
  assumes "valid_action (hp w) a" "\<not> isDispatching w"
  shows "dispatch n E a w =
     (case invoke n E (currentReducer w) [currentState w, a] (w\<lparr>isDispatching := True\<rparr>) of
        Diverge \<Rightarrow> Diverge
      | Throw e w1 \<Rightarrow> Throw e (w1\<lparr>isDispatching := False\<rparr>)
      | Ok s w1 \<Rightarrow>
          (case notify n E (nextListeners w1) 0
                  (w1\<lparr>currentState := s, isDispatching := False,
                      currentListeners := Some (nextListeners w1)\<rparr>) of
             Diverge \<Rightarrow> Diverge
           | Throw e w4 \<Rightarrow> Throw e w4
           | Ok called w4 \<Rightarrow> Ok a w4))"
  using assms(1)
  by (rule valid_actionD)
     (simp add: dispatch.simps assms(2) with_heap_def Let_def split: res.splits)

lemma dispatch_while_dispatching:
  assumes "isDispatching w" "valid_action (hp w) a"
  shows "dispatch n E a w = Throw ReducersMayNotDispatch w"
  using assms(2) by (rule valid_actionD) (simp add: dispatch.simps assms(1) with_heap_def)

lemma ensure_simps [simp]:
  "isDispatching (ensureCanMutateNextListeners w) = isDispatching w"
  "currentState (ensureCanMutateNextListeners w) = currentState w"
  "currentListeners (ensureCanMutateNextListeners w) = currentListeners w"
  "subscriptions (ensureCanMutateNextListeners w) = subscriptions w"
  "hp (ensureCanMutateNextListeners w) = hp w"
  "currentReducer (ensureCanMutateNextListeners w) = currentReducer w"
  by (simp_all add: ensureCanMutateNextListeners_def)

subsection \<open>The example heap\<close>

lemma heap1_plain:
  "isPlainObject heap1 (Obj 2) = Some True"
  "isPlainObject heap1 (Obj 3) = Some True"
  "isPlainObject heap1 (Obj 4) = Some True"
  "isPlainObject heap1 (Obj 5) = Some False"
  by (simp_all add: isPlainObject_def proto_loop.simps getPrototypeOf_def obj_at_def heap1_def
        ObjectPrototype_def)

lemma heap1_type:
  "get (Obj 2) ''type'' heap1 = Ok (Str ''go'') heap1"
  "get (Obj 3) ''type'' heap1 = Ok (Str ''boom'') heap1"
  "get (Obj 4) ''type'' heap1 = Ok Undefined heap1"
  by (simp_all add: get_def get_prop.simps getPrototypeOf_def obj_at_def heap1_def
        ObjectPrototype_def)

lemma heap1_valid: "valid_action heap1 (Obj 2)" "valid_action heap1 (Obj 3)"
  using heap1_plain heap1_type by (simp_all add: valid_action_def)

section \<open>What every call into the store preserves\<close>

text \<open>
  A relation between the state before and after that is reflexive and transitive, that
  holds across \<^verbatim>\<open>subscribe\<close>, \<^verbatim>\<open>unsubscribe\<close>, a change of the heap and a change of
  the reducer, and across the two ways in which \<open>dispatch\<close> leaves its
  \<^verbatim>\<open>try\<close>/\<^verbatim>\<open>finally\<close> block, holds across every call, however deeply the callbacks
  nest.
\<close>

lemma store_preserves:
  fixes R :: "world \<Rightarrow> world \<Rightarrow> bool"
  assumes Rrefl: "\<And>w. R w w"
    and Rtrans: "\<And>w1 w2 w3. R w1 w2 \<Longrightarrow> R w2 w3 \<Longrightarrow> R w1 w3"
    and heap: "\<And>w h. R w (w\<lparr>hp := h\<rparr>)"
    and sub: "\<And>l w w'. final (subscribe l w) = Some w' \<Longrightarrow> R w w'"
    and unsub: "\<And>u w w'. final (unsubscribe u w) = Some w' \<Longrightarrow> R w w'"
    and abort: "\<And>w w1. \<not> isDispatching w \<Longrightarrow> R (w\<lparr>isDispatching := True\<rparr>) w1 \<Longrightarrow>
                  R w (w1\<lparr>isDispatching := False\<rparr>)"
    and commit: "\<And>w w1 s. \<not> isDispatching w \<Longrightarrow> R (w\<lparr>isDispatching := True\<rparr>) w1 \<Longrightarrow>
                  R w (w1\<lparr>currentState := s, isDispatching := False,
                          currentListeners := Some (nextListeners w1)\<rparr>)"
    and replace: "\<And>w r. R w (w\<lparr>currentReducer := r\<rparr>)"
  shows "final (exec n E p w) = Some w' \<Longrightarrow> R w w'"
    and "final (run_call n E c w) = Some w' \<Longrightarrow> R w w'"
    and "final (invoke n E f args w) = Some w' \<Longrightarrow> R w w'"
    and "final (dispatch n E a w) = Some w' \<Longrightarrow> R w w'"
    and "final (notify n E ls i w) = Some w' \<Longrightarrow> R w w'"
    and "final (replaceReducer n E r w) = Some w' \<Longrightarrow> R w w'"
proof (induction n E p w and n E c w and n E f args w and n E a w and n E ls i w and n E r w
    arbitrary: w' and w' and w' and w' and w' and w'
    rule: exec_run_call_invoke_dispatch_notify_replaceReducer.induct)
  case (1 n E v w)
  then show ?case by (simp add: Rrefl)
next
  case (2 n E e w)
  then show ?case by (simp add: Rrefl)
next
  case (3 E c k w)
  then show ?case by simp
next
  case (4 n E c k w)
  show ?case
  proof (cases "run_call n E c w")
    case Diverge
    with 4(4) show ?thesis by simp
  next
    case (Throw e w1)
    have "R w w1" using 4(1) Throw by simp
    moreover have "R w1 w'" using 4(2)[OF Throw] 4(4) Throw by simp
    ultimately show ?thesis by (rule Rtrans)
  next
    case (Ok r w1)
    have "R w w1" using 4(1) Ok by simp
    moreover have "R w1 w'" using 4(3)[OF Ok] 4(4) Ok by simp
    ultimately show ?thesis by (rule Rtrans)
  qed
next
  case (5 n E a w)
  then show ?case by (cases "dispatch n E a w") simp_all
next
  case (6 n E w)
  then show ?case by (simp add: getState_def Rrefl split: if_splits)
next
  case (7 n E l w)
  then show ?case using sub[of l w w'] by (cases "subscribe l w") simp_all
next
  case (8 n E u w)
  then show ?case using unsub[of u w w'] by (cases "unsubscribe u w") simp_all
next
  case (9 n E r w)
  then show ?case by (cases "replaceReducer n E r w") simp_all
next
  case (10 n E f w)
  then show ?case using heap[of w] by (cases "f (hp w)") (auto simp: with_heap_def)
next
  case (11 E f args w)
  then show ?case by simp
next
  case (12 n E f args w)
  then show ?case by (cases f) (simp_all add: Rrefl)
next
  case (13 n E action w)
  note prem = 13(3)
  show ?case
  proof (cases "isPlainObject (hp w) action")
    case None
    with prem show ?thesis by (simp add: dispatch.simps)
  next
    case (Some plain)
    show ?thesis
    proof (cases plain)
      case False
      with prem Some show ?thesis by (simp add: dispatch.simps Rrefl)
    next
      case True
      show ?thesis
      proof (cases "with_heap w (get action ''type'' (hp w))")
        case Diverge
        with prem Some True show ?thesis by (simp add: dispatch.simps)
      next
        case (Throw e wt)
        then have "final (with_heap w (get action ''type'' (hp w))) = Some wt" by simp
        then obtain h where "wt = w\<lparr>hp := h\<rparr>" using final_with_heap by blast
        moreover have "w' = wt" using prem Some True Throw by (simp add: dispatch.simps)
        ultimately show ?thesis using heap[of w h] by simp
      next
        case (Ok t wt)
        show ?thesis
        proof (cases "typeof t = ''undefined'' \<or> isDispatching w")
          case True
          with prem Some \<open>plain\<close> Ok show ?thesis
            by (auto simp: dispatch.simps Rrefl split: if_splits)
        next
          case False
          let ?w0 = "w\<lparr>isDispatching := True\<rparr>"
          have ih1: "\<And>w'. final (invoke n E (currentReducer w) [currentState w, action] ?w0)
                         = Some w' \<Longrightarrow> R ?w0 w'"
            using 13(1)[OF Some _ Ok] \<open>plain\<close> False by simp
          show ?thesis
          proof (cases "invoke n E (currentReducer w) [currentState w, action] ?w0")
            case Diverge
            with prem Some \<open>plain\<close> Ok False show ?thesis by (simp add: dispatch.simps)
          next
            case (Throw e w1)
            have "R ?w0 w1" using ih1 Throw by simp
            then have "R w (w1\<lparr>isDispatching := False\<rparr>)"
              using False by (intro abort) simp_all
            moreover have "w' = w1\<lparr>isDispatching := False\<rparr>"
              using prem Some \<open>plain\<close> Ok False Throw by (simp add: dispatch.simps)
            ultimately show ?thesis by simp
          next
            case ok1: (Ok s w1)
            let ?w2 = "w1\<lparr>currentState := s, isDispatching := False\<rparr>"
            let ?w3 = "?w2\<lparr>currentListeners := Some (nextListeners ?w2)\<rparr>"
            have ih2: "\<And>w'. final (notify n E (nextListeners ?w2) 0 ?w3) = Some w' \<Longrightarrow> R ?w3 w'"
              using 13(2)[OF Some _ Ok _ _ ok1 HOL.refl HOL.refl HOL.refl] \<open>plain\<close> False by simp
            have b: "R ?w0 w1" using ih1 ok1 by simp
            have c: "R w ?w3" using commit[of w w1 s] b False by simp
            have d: "R ?w3 w'"
              using prem Some \<open>plain\<close> Ok False ok1 ih2
              by (cases "notify n E (nextListeners ?w2) 0 ?w3")
                 (simp_all add: dispatch.simps Let_def)
            from c d show ?thesis by (rule Rtrans)
          qed
        qed
      qed
    qed
  qed
next
  case (14 E listeners i w)
  then show ?case by simp
next
  case (15 n E listeners i w)
  note prem = 15(3)
  show ?case
  proof (cases "i < length (array_at w listeners)")
    case False
    with prem show ?thesis by (simp add: Rrefl)
  next
    case True
    let ?l = "array_at w listeners ! i"
    show ?thesis
    proof (cases "invoke n E ?l [] w")
      case Diverge
      with prem True show ?thesis by (simp add: Let_def)
    next
      case (Throw e w1)
      with prem True 15(1)[OF True HOL.refl, of w1] show ?thesis by (simp add: Let_def)
    next
      case (Ok v w1)
      have a: "R w w1" using 15(1)[OF True HOL.refl, of w1] Ok by simp
      have b: "R w1 w'"
        using prem True Ok 15(2)[OF True HOL.refl Ok, of w']
        by (cases "notify n E listeners (Suc i) w1") (simp_all add: Let_def)
      from a b show ?thesis by (rule Rtrans)
    qed
  qed
next
  case (16 n E nextReducer w)
  note prem = 16(2)
  show ?case
  proof (cases "typeof nextReducer \<noteq> ''function''")
    case True
    with prem show ?thesis by (simp add: replaceReducer.simps Rrefl)
  next
    case False
    let ?w1 = "w\<lparr>currentReducer := nextReducer\<rparr>"
    obtain a h where
      lit: "literal [(''type'', Str (REPLACE (ActionTypes (randomString E))))] (hp ?w1) = (a, h)"
      by (cases "literal [(''type'', Str (REPLACE (ActionTypes (randomString E))))] (hp ?w1)") auto
    have ih: "\<And>w'. final (dispatch n E (Obj a) (?w1\<lparr>hp := h\<rparr>)) = Some w' \<Longrightarrow>
                   R (?w1\<lparr>hp := h\<rparr>) w'"
      using 16(1)[OF _ HOL.refl HOL.refl lit[symmetric]] False by simp
    have x: "R w ?w1" by (rule replace)
    have y: "R ?w1 (?w1\<lparr>hp := h\<rparr>)" by (rule heap)
    have z: "R (?w1\<lparr>hp := h\<rparr>) w'"
      using prem False lit ih
      by (cases "dispatch n E (Obj a) (?w1\<lparr>hp := h\<rparr>)")
         (simp_all add: replaceReducer.simps Let_def)
    from x y z show ?thesis by (blast intro: Rtrans)
  qed
qed

subsection \<open>The flag and the frozen store\<close>

lemma subscribe_flag: "final (subscribe l w) = Some w' \<Longrightarrow> isDispatching w' = isDispatching w"
  by (auto simp: subscribe_def Let_def split: if_splits)

lemma unsubscribe_flag: "final (unsubscribe u w) = Some w' \<Longrightarrow> isDispatching w' = isDispatching w"
  by (auto simp: unsubscribe_def Let_def split: if_splits)

text \<open>Every call ends with the flag as it found it.\<close>

lemma dispatch_keeps_flag:
  assumes "final (dispatch n E a w) = Some w'"
  shows "isDispatching w' = isDispatching w"
  using assms
  by (rule store_preserves(4)[where R = "\<lambda>w w'. isDispatching w' = isDispatching w", rotated -1])
     (auto dest: subscribe_flag unsubscribe_flag)

lemma subscribe_reducing: "isDispatching w \<Longrightarrow> final (subscribe l w) = Some w' \<Longrightarrow> w' = w"
  by (auto simp: subscribe_def Let_def split: if_splits)

lemma unsubscribe_reducing: "isDispatching w \<Longrightarrow> final (unsubscribe u w) = Some w' \<Longrightarrow> w' = w"
  by (auto simp: unsubscribe_def Let_def split: if_splits)

text \<open>
  While the flag is set, no call changes the state, the listeners or the subscriptions.
\<close>

lemma run_call_reducing:
  assumes "isDispatching w" "final (run_call n E c w) = Some w'"
  shows "same_store w w'"
proof -
  have "isDispatching w \<longrightarrow> same_store w w'"
    using assms(2)
    by (rule store_preserves(2)[where R = "\<lambda>w w'. isDispatching w \<longrightarrow> same_store w w'", rotated -1])
       (auto simp: same_store_def dest: subscribe_reducing unsubscribe_reducing)
  with assms(1) show ?thesis by simp
qed

lemma invoke_reducing:
  assumes "isDispatching w" "final (invoke n E f args w) = Some w'"
  shows "same_store w w'"
proof -
  have "isDispatching w \<longrightarrow> same_store w w'"
    using assms(2)
    by (rule store_preserves(3)[where R = "\<lambda>w w'. isDispatching w \<longrightarrow> same_store w w'", rotated -1])
       (auto simp: same_store_def dest: subscribe_reducing unsubscribe_reducing)
  with assms(1) show ?thesis by simp
qed

section \<open>Malformed actions\<close>

text \<open>
  Claim C3. For every value that the shape validator rejects (\<open>isPlainObject\<close> returns
  false: every primitive value, \<^verbatim>\<open>null\<close>, a function, an object whose prototype is not
  the end of its prototype chain, such as a class instance), \<open>dispatch\<close> throws the
  error "Actions must be plain objects", a ConfigurationError. For every plain object
  whose \<^verbatim>\<open>type\<close> reads as \<^verbatim>\<open>undefined\<close>, \<open>dispatch\<close> throws the error "Actions may
  not have an undefined type property", a ConfigurationError. In both cases the state
  left behind is the state \<open>w\<close> in which \<open>dispatch\<close> was called: nothing has changed,
  whether or not a reducer is running.
\<close>

theorem dispatch_rejects_malformed_action:
  "(isPlainObject (hp w) v = Some False \<longrightarrow>
      dispatch n E v w = Throw ActionNotPlainObject w \<and>
      kind ActionNotPlainObject = ConfigurationError) \<and>
   (isPlainObject (hp w) v = Some True \<and> get v ''type'' (hp w) = Ok Undefined (hp w) \<longrightarrow>
      dispatch n E v w = Throw ActionTypeUndefined w \<and>
      kind ActionTypeUndefined = ConfigurationError)"
  by (simp add: dispatch.simps with_heap_def)

text \<open>The instance of a class at address \<open>5\<close> and the object \<^verbatim>\<open>{}\<close> at address \<open>4\<close>.\<close>

theorem dispatch_rejects_malformed_action_witness:
  "dispatch 0 identity_env (Obj 5) world1 = Throw ActionNotPlainObject world1 \<and>
   dispatch 0 identity_env (Obj 4) world1 = Throw ActionTypeUndefined world1"
proof -
  have a: "isPlainObject (hp world1) (Obj 5) = Some False"
    by (simp add: world1_def heap1_plain)
  have b: "isPlainObject (hp world1) (Obj 4) = Some True \<and>
           get (Obj 4) ''type'' (hp world1) = Ok Undefined (hp world1)"
    by (simp add: world1_def heap1_plain heap1_type)
  from a b dispatch_rejects_malformed_action[of world1 "Obj 5" 0 identity_env]
    dispatch_rejects_malformed_action[of world1 "Obj 4" 0 identity_env]
  show ?thesis by blast
qed

section \<open>Several enhancers\<close>

text \<open>
  Claim C4, as stated, fails: \<^verbatim>\<open>createStore(reducer, f, undefined, g)\<close> with functions
  \<open>f\<close> and \<open>g\<close> has two callable arguments among the three, but \<^verbatim>\<open>createStore\<close> only
  compares neighbours. It takes \<open>f\<close> as the enhancer and ignores \<open>g\<close>; with an enhancer
  that returns the creator it is given, the store is created and no error is thrown.
\<close>

theorem several_enhancers_counterexample:
  "callable (arg 1 [Fn 0, Fn 1, Undefined, Fn 2]) \<and>
   callable (arg 3 [Fn 0, Fn 1, Undefined, Fn 2]) \<and>
   \<not> fails_with ConfigurationError
       (createStore (Suc (Suc 0)) identity_env [Fn 0, Fn 1, Undefined, Fn 2] world0)"
  by (simp add: createStore.simps dispatch.simps callable_def arg_def identity_env_def world0_def
        heap0_def Let_def literal_def alloc_def isPlainObject_def proto_loop.simps
        getPrototypeOf_def obj_at_def ObjectPrototype_def with_heap_def get_def get_prop.simps
        ActionTypes_def fails_with_def array_at_def)

text \<open>
  Claim C4, amended. For every call of \<^verbatim>\<open>createStore\<close> in which \<^verbatim>\<open>preloadedState\<close> and
  \<^verbatim>\<open>enhancer\<close> are both callable, or \<^verbatim>\<open>enhancer\<close> and the fourth argument are both
  callable, construction fails with the error about several store enhancers, a
  ConfigurationError, and nothing has changed.
\<close>

theorem createStore_several_enhancers:
  "(callable (arg 1 args) \<and> callable (arg 2 args)) \<or>
   (callable (arg 2 args) \<and> callable (arg 3 args)) \<Longrightarrow>
   createStore n E args w = Throw SeveralEnhancers w \<and>
   kind SeveralEnhancers = ConfigurationError"
  by (auto simp: createStore.simps callable_def Let_def)

theorem createStore_several_enhancers_witness:
  "createStore 0 identity_env [Fn 0, Fn 1, Fn 2] world0 = Throw SeveralEnhancers world0 \<and>
   createStore 0 identity_env [Fn 0, Num 7, Fn 1, Fn 2] world0 = Throw SeveralEnhancers world0"
proof -
  have a: "(callable (arg 1 [Fn 0, Fn 1, Fn 2]) \<and> callable (arg 2 [Fn 0, Fn 1, Fn 2])) \<or>
           (callable (arg 2 [Fn 0, Fn 1, Fn 2]) \<and> callable (arg 3 [Fn 0, Fn 1, Fn 2]))"
    by (simp add: callable_def arg_def)
  have b: "(callable (arg 1 [Fn 0, Num 7, Fn 1, Fn 2]) \<and> callable (arg 2 [Fn 0, Num 7, Fn 1, Fn 2])) \<or>
           (callable (arg 2 [Fn 0, Num 7, Fn 1, Fn 2]) \<and> callable (arg 3 [Fn 0, Num 7, Fn 1, Fn 2]))"
    by (simp add: callable_def arg_def)
  from createStore_several_enhancers[OF a, of 0 identity_env world0]
    createStore_several_enhancers[OF b, of 0 identity_env world0]
  show ?thesis by blast
qed

section \<open>The reentrancy guard\<close>

text \<open>
  Claim C8, as stated, fails for \<open>dispatch\<close>: the shape of the action is checked before
  the flag, so a call of \<open>dispatch\<close> from inside the reducer with a value that is not a
  plain object fails with a ConfigurationError, not with an InvariantViolation. In the
  store \<open>world1\<close> the reducer calls \<^verbatim>\<open>dispatch(null)\<close> and lets the error propagate:
  the call that it makes fails with the error "Actions must be plain objects", and so
  does the dispatch in which the reducer runs.
\<close>

theorem reentrant_dispatch_counterexample:
  "dispatch (Suc (Suc 0)) (calling_env (Dispatch Null)) (Obj 2) world1
     = Throw ActionNotPlainObject world1 \<and>
   made (Suc 0) (calling_env (Dispatch Null))
        (body (calling_env (Dispatch Null)) 0 [currentState world1, Obj 2])
        (world1\<lparr>isDispatching := True\<rparr>)
     = [(Dispatch Null, world1\<lparr>isDispatching := True\<rparr>,
         Throw ActionNotPlainObject (world1\<lparr>isDispatching := True\<rparr>))] \<and>
   kind ActionNotPlainObject = ConfigurationError \<and>
   kind ActionNotPlainObject \<noteq> InvariantViolation"
  by (simp add: dispatch.simps world1_def heap1_plain heap1_type with_heap_def
       calling_env_def Let_def)

text \<open>
  While the flag is set, every call that a function body makes finds it set, and is a
  call of the store in that state.
\<close>

lemma invoke_keeps_flag:
  assumes "final (invoke n E f args w) = Some w'"
  shows "isDispatching w' = isDispatching w"
  using assms
  by (rule store_preserves(3)[where R = "\<lambda>w w'. isDispatching w' = isDispatching w", rotated -1])
     (auto dest: subscribe_flag unsubscribe_flag)

lemma run_call_guard:
  assumes "isDispatching w"
  shows "run_call m E GetState w = Throw GetStateWhileDispatching w"
    and "valid_action (hp w) a \<Longrightarrow> run_call m E (Dispatch a) w = Throw ReducersMayNotDispatch w"
  using assms by (simp_all add: getState_def dispatch_while_dispatching)

lemma made_reducing:
  "isDispatching w \<Longrightarrow> (c, wc, r) \<in> set (made n E p w) \<Longrightarrow>
   isDispatching wc \<and> (\<exists>m. r = run_call m E c wc)"
proof (induction n arbitrary: p w)
  case 0
  then show ?case by (cases p) simp_all
next
  case (Suc n)
  show ?case
  proof (cases p)
    case (Return v)
    with Suc.prems show ?thesis by simp
  next
    case (Raise e)
    with Suc.prems show ?thesis by simp
  next
    case (Call c0 k)
    show ?thesis
    proof (cases "(c, wc, r) = (c0, w, run_call n E c0 w)")
      case True
      with Suc.prems(1) show ?thesis by auto
    next
      case False
      show ?thesis
      proof (cases "run_call n E c0 w")
        case Diverge
        with Suc.prems(2) Call False show ?thesis by simp
      next
        case (Throw e w1)
        then have "final (run_call n E c0 w) = Some w1" by simp
        from run_call_reducing[OF Suc.prems(1) this] Suc.prems(1)
        have f: "isDispatching w1" by (simp add: same_store_def)
        from Suc.prems(2) Call False Throw
        have "(c, wc, r) \<in> set (made n E (k (Failed e)) w1)" by auto
        from Suc.IH[OF f this] show ?thesis .
      next
        case (Ok rep w1)
        then have "final (run_call n E c0 w) = Some w1" by simp
        from run_call_reducing[OF Suc.prems(1) this] Suc.prems(1)
        have f: "isDispatching w1" by (simp add: same_store_def)
        from Suc.prems(2) Call False Ok
        have "(c, wc, r) \<in> set (made n E (k rep) w1)" by auto
        from Suc.IH[OF f this] show ?thesis .
      qed
    qed
  qed
qed

text \<open>
  Claim C8, amended. For every store that is not dispatching and every action that
  \<open>dispatch\<close> accepts, \<open>dispatch\<close> runs the body of the reducer in the state in which
  the flag \<open>isDispatching\<close> is set. Every call that the reducer makes while it runs is
  made with the flag set; if it is a call of \<open>getState\<close> it fails with an
  InvariantViolation, and so it does if it is a call of \<open>dispatch\<close> with an action
  that \<open>dispatch\<close> would otherwise accept (a plain object whose \<^verbatim>\<open>type\<close> is not
  \<^verbatim>\<open>undefined\<close>). The flag is set exactly while the reducer runs: it is cleared when
  the reducer has thrown and before the first listener is called, a function that is
  called with the flag cleared leaves it cleared, so that every listener is called with
  the flag cleared, and it is cleared when \<open>dispatch\<close> returns or throws.
\<close>

theorem reentrancy_guard:
  assumes "\<not> isDispatching w" and "valid_action (hp w) a" and "currentReducer w = Fn f"
  shows "dispatch (Suc n) E a w =
           (case exec n E (body E f [currentState w, a]) (w\<lparr>isDispatching := True\<rparr>) of
              Diverge \<Rightarrow> Diverge
            | Throw e w1 \<Rightarrow> Throw e (w1\<lparr>isDispatching := False\<rparr>)
            | Ok s w1 \<Rightarrow>
                (case notify (Suc n) E (nextListeners w1) 0
                        (w1\<lparr>currentState := s, isDispatching := False,
                            currentListeners := Some (nextListeners w1)\<rparr>) of
                   Diverge \<Rightarrow> Diverge
                 | Throw e w4 \<Rightarrow> Throw e w4
                 | Ok called w4 \<Rightarrow> Ok a w4)) \<and>
         (\<forall>(c, wc, r) \<in> set (made n E (body E f [currentState w, a]) (w\<lparr>isDispatching := True\<rparr>)).
            isDispatching wc \<and>
            (c = GetState \<longrightarrow>
               r = Throw GetStateWhileDispatching wc \<and>
               kind GetStateWhileDispatching = InvariantViolation) \<and>
            (\<forall>a'. c = Dispatch a' \<and> valid_action (hp wc) a' \<longrightarrow>
               r = Throw ReducersMayNotDispatch wc \<and>
               kind ReducersMayNotDispatch = InvariantViolation)) \<and>
         (\<forall>m l args wl wl'. \<not> isDispatching wl \<and> final (invoke m E l args wl) = Some wl'
            \<longrightarrow> \<not> isDispatching wl') \<and>
         (\<forall>w'. final (dispatch (Suc n) E a w) = Some w' \<longrightarrow> \<not> isDispatching w')"
proof (intro conjI)
  show "dispatch (Suc n) E a w =
           (case exec n E (body E f [currentState w, a]) (w\<lparr>isDispatching := True\<rparr>) of
              Diverge \<Rightarrow> Diverge
            | Throw e w1 \<Rightarrow> Throw e (w1\<lparr>isDispatching := False\<rparr>)
            | Ok s w1 \<Rightarrow>
                (case notify (Suc n) E (nextListeners w1) 0
                        (w1\<lparr>currentState := s, isDispatching := False,
                            currentListeners := Some (nextListeners w1)\<rparr>) of
                   Diverge \<Rightarrow> Diverge
                 | Throw e w4 \<Rightarrow> Throw e w4
                 | Ok called w4 \<Rightarrow> Ok a w4))"
    by (simp add: dispatch_valid[OF assms(2) assms(1)] assms(3))
next
  show "\<forall>(c, wc, r) \<in> set (made n E (body E f [currentState w, a]) (w\<lparr>isDispatching := True\<rparr>)).
            isDispatching wc \<and>
            (c = GetState \<longrightarrow>
               r = Throw GetStateWhileDispatching wc \<and>
               kind GetStateWhileDispatching = InvariantViolation) \<and>
            (\<forall>a'. c = Dispatch a' \<and> valid_action (hp wc) a' \<longrightarrow>
               r = Throw ReducersMayNotDispatch wc \<and>
               kind ReducersMayNotDispatch = InvariantViolation)"
  proof (clarify, intro conjI impI allI)
    fix c wc r
    assume m: "(c, wc, r) \<in> set (made n E (body E f [currentState w, a]) (w\<lparr>isDispatching := True\<rparr>))"
    have "isDispatching (w\<lparr>isDispatching := True\<rparr>)" by simp
    from made_reducing[OF this m] obtain k where fl: "isDispatching wc"
      and r: "r = run_call k E c wc" by blast
    show "isDispatching wc" by (rule fl)
    show "kind GetStateWhileDispatching = InvariantViolation" by simp
    { assume "c = GetState"
      then show "r = Throw GetStateWhileDispatching wc" using r run_call_guard(1)[OF fl] by simp }
    { fix a' assume "c = Dispatch a' \<and> valid_action (hp wc) a'"
      then show "r = Throw ReducersMayNotDispatch wc" using r run_call_guard(2)[OF fl] by simp
      show "kind ReducersMayNotDispatch = InvariantViolation" by simp }
  qed
next
  show "\<forall>m l args wl wl'. \<not> isDispatching wl \<and> final (invoke m E l args wl) = Some wl'
            \<longrightarrow> \<not> isDispatching wl'"
    using invoke_keeps_flag by blast
next
  show "\<forall>w'. final (dispatch (Suc n) E a w) = Some w' \<longrightarrow> \<not> isDispatching w'"
    using dispatch_keeps_flag assms(1) by blast
qed


text \<open>
  The store \<open>world1\<close> with a reducer that calls \<^verbatim>\<open>getState\<close> and \<^verbatim>\<open>dispatch\<close> and
  catches their errors: both calls fail, and the dispatch returns.
\<close>

theorem reentrancy_guard_witness:
  "dispatch (Suc (Suc (Suc 0))) (probing_env (Obj 2)) (Obj 2) world1 = Ok (Obj 2) world1 \<and>
   made (Suc (Suc 0)) (probing_env (Obj 2))
        (body (probing_env (Obj 2)) 0 [currentState world1, Obj 2])
        (world1\<lparr>isDispatching := True\<rparr>)
     = [(GetState, world1\<lparr>isDispatching := True\<rparr>,
         Throw GetStateWhileDispatching (world1\<lparr>isDispatching := True\<rparr>)),
        (Dispatch (Obj 2), world1\<lparr>isDispatching := True\<rparr>,
         Throw ReducersMayNotDispatch (world1\<lparr>isDispatching := True\<rparr>))] \<and>
   \<not> isDispatching world1"
proof -
  have a: "\<not> isDispatching world1" by (simp add: world1_def)
  have b: "valid_action (hp world1) (Obj 2)" using heap1_valid by (simp add: world1_def)
  have c: "currentReducer world1 = Fn 0" by (simp add: world1_def)
  have v: "valid_action (hp (world1\<lparr>isDispatching := True\<rparr>)) (Obj 2)" using b by simp
  have cs: "currentState world1 = Num 0" by (simp add: world1_def)
  have e: "exec (Suc (Suc 0)) (probing_env (Obj 2))
             (body (probing_env (Obj 2)) 0 [currentState world1, Obj 2])
             (world1\<lparr>isDispatching := True\<rparr>)
           = Ok (Num 0) (world1\<lparr>isDispatching := True\<rparr>)"
    by (simp add: probing_env_def getState_def dispatch_while_dispatching[OF _ v] arg_def cs)
  have m: "made (Suc (Suc 0)) (probing_env (Obj 2))
        (body (probing_env (Obj 2)) 0 [currentState world1, Obj 2])
        (world1\<lparr>isDispatching := True\<rparr>)
     = [(GetState, world1\<lparr>isDispatching := True\<rparr>,
         Throw GetStateWhileDispatching (world1\<lparr>isDispatching := True\<rparr>)),
        (Dispatch (Obj 2), world1\<lparr>isDispatching := True\<rparr>,
         Throw ReducersMayNotDispatch (world1\<lparr>isDispatching := True\<rparr>))]"
    by (simp add: probing_env_def getState_def dispatch_while_dispatching[OF _ v])
  have n: "world1\<lparr>isDispatching := True, currentState := Num 0, isDispatching := False,
                  currentListeners := Some (nextListeners (world1\<lparr>isDispatching := True\<rparr>))\<rparr> = world1"
    by (simp add: world1_def)
  from reentrancy_guard[OF a b c, of "Suc (Suc 0)" "probing_env (Obj 2)"]
  have "dispatch (Suc (Suc (Suc 0))) (probing_env (Obj 2)) (Obj 2) world1 = Ok (Obj 2) world1"
    by (simp add: e n) (simp add: world1_def array_at_def)
  with m a show ?thesis by blast
qed


section \<open>A reducer that throws\<close>

text \<open>
  Claim C9, as stated, fails in its last part: a reducer that calls \<^verbatim>\<open>getState\<close> and lets
  the error propagate throws at every dispatch, so the dispatch that follows one in which
  it threw fails with an InvariantViolation again, although the flag has been reset. The
  first dispatch leaves the state \<open>world1\<close> behind, from which the second starts.
\<close>

theorem stuck_reducer_counterexample:
  "invoke (Suc (Suc 0)) (calling_env GetState) (currentReducer world1) [currentState world1, Obj 2]
      (world1\<lparr>isDispatching := True\<rparr>)
     = Throw GetStateWhileDispatching (world1\<lparr>isDispatching := True\<rparr>) \<and>
   dispatch (Suc (Suc 0)) (calling_env GetState) (Obj 2) world1 = Throw GetStateWhileDispatching world1 \<and>
   fails_with InvariantViolation (dispatch (Suc (Suc 0)) (calling_env GetState) (Obj 2) world1)"
  by (simp add: dispatch.simps world1_def heap1_plain heap1_type with_heap_def
       calling_env_def Let_def getState_def fails_with_def)

text \<open>
  A dispatch that is called with the flag cleared and fails with an InvariantViolation
  has it from the reducer or from a listener.
\<close>

lemma dispatch_failure_origin:
  assumes idle: "\<not> isDispatching w"
    and thr: "dispatch m E b w = Throw e' w''"
    and k: "kind e' = InvariantViolation"
  shows "(\<exists>w3. invoke m E (currentReducer w) [currentState w, b] (w\<lparr>isDispatching := True\<rparr>)
                 = Throw e' w3) \<or>
         (\<exists>s w3. invoke m E (currentReducer w) [currentState w, b] (w\<lparr>isDispatching := True\<rparr>)
                   = Ok s w3 \<and>
                 notify m E (nextListeners w3) 0
                   (w3\<lparr>currentState := s, isDispatching := False,
                       currentListeners := Some (nextListeners w3)\<rparr>) = Throw e' w'')"
proof (cases "isPlainObject (hp w) b")
  case None
  with thr show ?thesis by (simp add: dispatch.simps)
next
  case (Some plain)
  show ?thesis
  proof (cases "plain \<and> (\<exists>t. get b ''type'' (hp w) = Ok t (hp w) \<and> typeof t \<noteq> ''undefined'')")
    case False
    with thr k Some show ?thesis
      by (auto simp: dispatch.simps with_heap_def get_def
               split: res.splits jsval.splits option.splits if_splits)
  next
    case True
    then have v: "valid_action (hp w) b" using Some by (auto simp: valid_action_def)
    show ?thesis
      using thr unfolding dispatch_valid[OF v idle]
      by (auto split: res.splits)
  qed
qed

text \<open>
  Claim C9, amended. For every dispatch in which the reducer throws, the exception
  propagates to the caller, the stored state is left unchanged, and \<open>isDispatching\<close> is
  reset to false, so that a \<open>getState\<close> that follows returns the state, and a
  \<open>dispatch\<close> that follows is not stopped by the guard: with an action that
  \<open>dispatch\<close> accepts it calls the reducer, and whatever the action, if it fails with
  an InvariantViolation then the call of the reducer has thrown that error or a
  listener has.
\<close>

theorem reducer_exception_cleanup:
  assumes "\<not> isDispatching w" and "valid_action (hp w) a"
    and "invoke n E (currentReducer w) [currentState w, a] (w\<lparr>isDispatching := True\<rparr>) = Throw e w1"
  shows "dispatch n E a w = Throw e (w1\<lparr>isDispatching := False\<rparr>) \<and>
         currentState (w1\<lparr>isDispatching := False\<rparr>) = currentState w \<and>
         \<not> isDispatching (w1\<lparr>isDispatching := False\<rparr>) \<and>
         getState (w1\<lparr>isDispatching := False\<rparr>) = Ok (currentState w) (w1\<lparr>isDispatching := False\<rparr>) \<and>
         (valid_action (hp w1) b \<longrightarrow>
            dispatch m E b (w1\<lparr>isDispatching := False\<rparr>) =
              (case invoke m E (currentReducer w1) [currentState w, b] (w1\<lparr>isDispatching := True\<rparr>) of
                 Diverge \<Rightarrow> Diverge
               | Throw e' w3 \<Rightarrow> Throw e' (w3\<lparr>isDispatching := False\<rparr>)
               | Ok s w3 \<Rightarrow>
                   (case notify m E (nextListeners w3) 0
                           (w3\<lparr>currentState := s, isDispatching := False,
                               currentListeners := Some (nextListeners w3)\<rparr>) of
                      Diverge \<Rightarrow> Diverge
                    | Throw e' w4 \<Rightarrow> Throw e' w4
                    | Ok called w4 \<Rightarrow> Ok b w4))) \<and>
         (\<forall>e' w4. dispatch m E b (w1\<lparr>isDispatching := False\<rparr>) = Throw e' w4 \<and>
                   kind e' = InvariantViolation \<longrightarrow>
            (\<exists>w3. invoke m E (currentReducer w1) [currentState w, b] (w1\<lparr>isDispatching := True\<rparr>)
                    = Throw e' w3) \<or>
            (\<exists>s w3. invoke m E (currentReducer w1) [currentState w, b] (w1\<lparr>isDispatching := True\<rparr>)
                      = Ok s w3 \<and>
                    notify m E (nextListeners w3) 0
                      (w3\<lparr>currentState := s, isDispatching := False,
                          currentListeners := Some (nextListeners w3)\<rparr>) = Throw e' w4))"
proof -
  let ?w' = "w1\<lparr>isDispatching := False\<rparr>"
  have "same_store (w\<lparr>isDispatching := True\<rparr>) w1"
    using assms(3) by (intro invoke_reducing[of _ n E "currentReducer w" "[currentState w, a]"]) simp_all
  then have cs: "currentState w1 = currentState w" by (simp add: same_store_def)
  have idle: "\<not> isDispatching ?w'" by simp
  have 1: "dispatch n E a w = Throw e ?w'"
    using assms(3) by (simp add: dispatch_valid[OF assms(2) assms(1)])
  have 5: "valid_action (hp w1) b \<longrightarrow>
            dispatch m E b ?w' =
              (case invoke m E (currentReducer w1) [currentState w, b] (w1\<lparr>isDispatching := True\<rparr>) of
                 Diverge \<Rightarrow> Diverge
               | Throw e' w3 \<Rightarrow> Throw e' (w3\<lparr>isDispatching := False\<rparr>)
               | Ok s w3 \<Rightarrow>
                   (case notify m E (nextListeners w3) 0
                           (w3\<lparr>currentState := s, isDispatching := False,
                               currentListeners := Some (nextListeners w3)\<rparr>) of
                      Diverge \<Rightarrow> Diverge
                    | Throw e' w4 \<Rightarrow> Throw e' w4
                    | Ok called w4 \<Rightarrow> Ok b w4))"
  proof
    assume "valid_action (hp w1) b"
    then have v: "valid_action (hp ?w') b" by simp
    show "dispatch m E b ?w' =
              (case invoke m E (currentReducer w1) [currentState w, b] (w1\<lparr>isDispatching := True\<rparr>) of
                 Diverge \<Rightarrow> Diverge
               | Throw e' w3 \<Rightarrow> Throw e' (w3\<lparr>isDispatching := False\<rparr>)
               | Ok s w3 \<Rightarrow>
                   (case notify m E (nextListeners w3) 0
                           (w3\<lparr>currentState := s, isDispatching := False,
                               currentListeners := Some (nextListeners w3)\<rparr>) of
                      Diverge \<Rightarrow> Diverge
                    | Throw e' w4 \<Rightarrow> Throw e' w4
                    | Ok called w4 \<Rightarrow> Ok b w4))"
      unfolding dispatch_valid[OF v idle] by (simp add: cs)
  qed
  have 6: "\<forall>e' w4. dispatch m E b ?w' = Throw e' w4 \<and> kind e' = InvariantViolation \<longrightarrow>
            (\<exists>w3. invoke m E (currentReducer w1) [currentState w, b] (w1\<lparr>isDispatching := True\<rparr>)
                    = Throw e' w3) \<or>
            (\<exists>s w3. invoke m E (currentReducer w1) [currentState w, b] (w1\<lparr>isDispatching := True\<rparr>)
                      = Ok s w3 \<and>
                    notify m E (nextListeners w3) 0
                      (w3\<lparr>currentState := s, isDispatching := False,
                          currentListeners := Some (nextListeners w3)\<rparr>) = Throw e' w4)"
  proof (intro allI impI)
    fix e' w4
    assume "dispatch m E b ?w' = Throw e' w4 \<and> kind e' = InvariantViolation"
    then have t: "dispatch m E b ?w' = Throw e' w4" and k: "kind e' = InvariantViolation" by simp_all
    from dispatch_failure_origin[OF idle t k]
    show "(\<exists>w3. invoke m E (currentReducer w1) [currentState w, b] (w1\<lparr>isDispatching := True\<rparr>)
                    = Throw e' w3) \<or>
            (\<exists>s w3. invoke m E (currentReducer w1) [currentState w, b] (w1\<lparr>isDispatching := True\<rparr>)
                      = Ok s w3 \<and>
                    notify m E (nextListeners w3) 0
                      (w3\<lparr>currentState := s, isDispatching := False,
                          currentListeners := Some (nextListeners w3)\<rparr>) = Throw e' w4)"
      by (simp add: cs)
  qed
  from 1 cs 5 6 show ?thesis by (simp add: getState_def)
qed

text \<open>
  A reducer that throws on the action \<^verbatim>\<open>{type: 'boom'}\<close>: after the failed dispatch the
  store is \<open>world1\<close> as before, and the action \<^verbatim>\<open>{type: 'go'}\<close> is dispatched.
\<close>

theorem reducer_exception_cleanup_witness:
  "dispatch (Suc (Suc 0)) boom_env (Obj 3) world1 = Throw (Thrown (Str ''boom'')) world1 \<and>
   getState world1 = Ok (Num 0) world1 \<and>
   dispatch (Suc (Suc 0)) boom_env (Obj 2) world1 = Ok (Obj 2) world1"
proof -
  have a: "\<not> isDispatching world1" by (simp add: world1_def)
  have b: "valid_action (hp world1) (Obj 3)" using heap1_valid by (simp add: world1_def)
  have c: "invoke (Suc (Suc 0)) boom_env (currentReducer world1) [currentState world1, Obj 3]
             (world1\<lparr>isDispatching := True\<rparr>)
           = Throw (Thrown (Str ''boom'')) (world1\<lparr>isDispatching := True\<rparr>)"
    by (simp add: world1_def boom_env_def heap1_type with_heap_def arg_def)
  have d: "world1\<lparr>isDispatching := True, isDispatching := False\<rparr> = world1"
    by (simp add: world1_def)
  have v: "valid_action (hp (world1\<lparr>isDispatching := True\<rparr>)) (Obj 2)"
    using heap1_valid by (simp add: world1_def)
  have i: "invoke (Suc (Suc 0)) boom_env (currentReducer world1) [currentState world1, Obj 2]
             (world1\<lparr>isDispatching := True\<rparr>)
           = Ok (Num 0) (world1\<lparr>isDispatching := True\<rparr>)"
    by (simp add: world1_def boom_env_def heap1_type with_heap_def arg_def)
  have n: "world1\<lparr>currentState := Num 0, isDispatching := False,
                  currentListeners := Some (nextListeners world1)\<rparr> = world1"
    by (simp add: world1_def)
  have l: "notify (Suc (Suc 0)) boom_env (nextListeners world1) 0 world1
             = Ok [] world1"
    by (simp add: world1_def array_at_def)
  note t = reducer_exception_cleanup[OF a b c, of "Obj 2" "Suc (Suc 0)"]
  from t have "dispatch (Suc (Suc 0)) boom_env (Obj 3) world1 = Throw (Thrown (Str ''boom'')) world1"
    by (simp add: d)
  moreover from t have "getState world1 = Ok (Num 0) world1"
    by (simp add: d) (simp add: world1_def)
  moreover from t v have "dispatch (Suc (Suc 0)) boom_env (Obj 2) world1 = Ok (Obj 2) world1"
    by (simp add: d i n l del: invoke.simps notify.simps)
  ultimately show ?thesis by blast
qed


section \<open>The listeners that a dispatch notifies\<close>

text \<open>
  No call changes an array that is guarded: \<^verbatim>\<open>subscribe\<close> and \<^verbatim>\<open>unsubscribe\<close> copy the
  array that \<open>currentListeners\<close> refers to before they change it.
\<close>

lemma ensure_protects:
  "protects A w (ensureCanMutateNextListeners w)"
  by (auto simp: protects_def guarded_def ensureCanMutateNextListeners_def array_at_def nth_append)

lemma ensure_not_guarded:
  "guarded A w \<Longrightarrow> nextListeners (ensureCanMutateNextListeners w) \<noteq> A"
  by (auto simp: guarded_def ensureCanMutateNextListeners_def)

lemma subscribe_protects: "final (subscribe l w) = Some w' \<Longrightarrow> protects A w w'"
  by (auto simp: subscribe_def Let_def protects_def guarded_def ensureCanMutateNextListeners_def
        array_at_def nth_append nth_list_update split: if_splits)

lemma unsubscribe_protects: "final (unsubscribe u w) = Some w' \<Longrightarrow> protects A w w'"
  by (auto simp: unsubscribe_def Let_def protects_def guarded_def ensureCanMutateNextListeners_def
        array_at_def nth_append nth_list_update split: if_splits)

lemma invoke_protects:
  assumes "final (invoke n E f args w) = Some w'"
  shows "protects A w w'"
  using assms
  by (rule store_preserves(3)[where R = "protects A", rotated -1])
     (auto simp: subscribe_protects unsubscribe_protects, auto simp: protects_def guarded_def array_at_def)

lemma notify_snapshot:
  "guarded A w \<Longrightarrow> notify n E A i w = Ok called w' \<Longrightarrow> called = drop i (array_at w A)"
proof (induction n arbitrary: i w called)
  case 0
  then show ?case by simp
next
  case (Suc n)
  show ?case
  proof (cases "i < length (array_at w A)")
    case False
    with Suc.prems show ?thesis by simp
  next
    case True
    let ?l = "array_at w A ! i"
    show ?thesis
    proof (cases "invoke n E ?l [] w")
      case Diverge
      with Suc.prems True show ?thesis by (simp add: Let_def)
    next
      case (Throw e w1)
      with Suc.prems True show ?thesis by (simp add: Let_def)
    next
      case (Ok v w1)
      then have "protects A w w1" by (intro invoke_protects[of n E ?l "[]"]) simp
      with Suc.prems(1) have g: "guarded A w1" and same: "array_at w1 A = array_at w A"
        by (simp_all add: protects_def)
      from Suc.prems(2) True Ok obtain rest where
        rest: "notify n E A (Suc i) w1 = Ok rest w'" and called: "called = ?l # rest"
        by (cases "notify n E A (Suc i) w1") (auto simp: Let_def)
      from Suc.IH[OF g rest] same have "rest = drop (Suc i) (array_at w A)" by simp
      with called True show ?thesis by (simp add: Cons_nth_drop_Suc)
    qed
  qed
qed

text \<open>
  Claim C2. Every dispatch that returns has run its reducer and then its notification
  loop, and the listeners that this loop has called are exactly the elements of the
  array that \<open>nextListeners\<close> referred to when \<open>dispatch\<close> was called, which is the
  snapshot that the loop has taken, each once and in order: whatever the listeners have
  done during the loop. So a listener that a callback subscribes during the loop is not
  called by this loop, as it is not an element of the snapshot, and a listener in the
  snapshot is called even if a callback has called its \<^verbatim>\<open>unsubscribe\<close> before its turn.
  The store is well formed: \<open>nextListeners\<close> refers to an array that exists.
\<close>

theorem listener_snapshot_isolation:
  assumes "nextListeners w < length (arrays w)"
    and "dispatch n E a w = Ok v w'"
  shows "\<exists>s w1 called.
           invoke n E (currentReducer w) [currentState w, a] (w\<lparr>isDispatching := True\<rparr>) = Ok s w1 \<and>
           notify n E (nextListeners w1) 0
             (w1\<lparr>currentState := s, isDispatching := False,
                 currentListeners := Some (nextListeners w1)\<rparr>) = Ok called w' \<and>
           called = array_at w (nextListeners w)"
proof -
  have idle: "\<not> isDispatching w"
    using assms(2) by (auto simp: dispatch.simps with_heap_def split: option.splits if_splits res.splits)
  have valid: "valid_action (hp w) a"
    using assms(2)
    by (auto simp: dispatch.simps with_heap_def valid_action_def split: option.splits if_splits res.splits)
  from assms(2) obtain s w1 where
    red: "invoke n E (currentReducer w) [currentState w, a] (w\<lparr>isDispatching := True\<rparr>) = Ok s w1"
    by (auto simp: dispatch_valid[OF valid idle] split: res.splits)
  let ?w3 = "w1\<lparr>currentState := s, isDispatching := False,
                 currentListeners := Some (nextListeners w1)\<rparr>"
  from assms(2) red obtain called where
    loop: "notify n E (nextListeners w1) 0 ?w3 = Ok called w'"
    by (auto simp: dispatch_valid[OF valid idle] split: res.splits)
  have "same_store (w\<lparr>isDispatching := True\<rparr>) w1"
    using red by (intro invoke_reducing[of _ n E "currentReducer w" "[currentState w, a]"]) simp_all
  then have nl: "nextListeners w1 = nextListeners w" and ar: "arrays w1 = arrays w"
    by (simp_all add: same_store_def)
  have "guarded (nextListeners w1) ?w3"
    using assms(1) nl ar by (simp add: guarded_def)
  from notify_snapshot[OF this loop] have "called = array_at w (nextListeners w)"
    using nl ar by (simp add: array_at_def)
  with red loop show ?thesis by blast
qed


text \<open>
  Listener \<open>1\<close> unsubscribes listener \<open>2\<close> and subscribes listener \<open>3\<close>: the loop calls
  \<open>1\<close> and \<open>2\<close>, and the next dispatch will notify \<open>1\<close> and \<open>3\<close>.
\<close>

theorem listener_snapshot_isolation_witness:
  "dispatch (Suc (Suc (Suc (Suc (Suc 0))))) listeners_env (Obj 2) world2 = Ok (Obj 2) world2_after \<and>
   (\<exists>s w1.
      notify (Suc (Suc (Suc (Suc (Suc 0))))) listeners_env (nextListeners w1) 0
         (w1\<lparr>currentState := s, isDispatching := False,
             currentListeners := Some (nextListeners w1)\<rparr>) = Ok [Fn 1, Fn 2] world2_after) \<and>
   array_at world2_after (nextListeners world2_after) = [Fn 1, Fn 3]"
proof -
  have a: "nextListeners world2 < length (arrays world2)" by (simp add: world2_def)
  have b: "dispatch (Suc (Suc (Suc (Suc (Suc 0))))) listeners_env (Obj 2) world2
             = Ok (Obj 2) world2_after"
    by (simp add: dispatch.simps world2_def world2_after_def heap1_plain heap1_type with_heap_def
          listeners_env_def Let_def arg_def array_at_def unsubscribe_def subscribe_def
          ensureCanMutateNextListeners_def splice1_def strict_eq_def)
  have c: "array_at world2 (nextListeners world2) = [Fn 1, Fn 2]"
    by (simp add: world2_def array_at_def)
  have d: "array_at world2_after (nextListeners world2_after) = [Fn 1, Fn 3]"
    by (simp add: world2_after_def array_at_def)
  from listener_snapshot_isolation[OF a b] c obtain s w1 where
    "notify (Suc (Suc (Suc (Suc (Suc 0))))) listeners_env (nextListeners w1) 0
         (w1\<lparr>currentState := s, isDispatching := False,
             currentListeners := Some (nextListeners w1)\<rparr>) = Ok [Fn 1, Fn 2] world2_after"
    by auto
  with b d show ?thesis by blast
qed

section \<open>The state of a store is the reducer folded over the actions\<close>

lemma proto_loop_root [simp]: "proto_loop h ObjectPrototype = Some ObjectPrototype"
  by (subst proto_loop.simps) (simp add: getPrototypeOf_def)

lemma literal_valid:
  assumes "objs h \<noteq> []" "literal [(''type'', Str s)] h = (i, h0)"
  shows "valid_action h0 (Obj i)"
proof -
  from assms have i: "i = length (objs h)" and h0: "h0 = h\<lparr>objs := objs h @ [\<lparr>proto = Some ObjectPrototype, props = [(''type'', Str s)]\<rparr>]\<rparr>"
    by (auto simp: literal_def alloc_def)
  from assms(1) i have nz: "i \<noteq> ObjectPrototype" by (simp add: ObjectPrototype_def)
  have at: "obj_at h0 i = \<lparr>proto = Some ObjectPrototype, props = [(''type'', Str s)]\<rparr>"
    using i h0 by (simp add: obj_at_def)
  have gp: "getPrototypeOf h0 i = Some ObjectPrototype"
    using nz at by (simp add: getPrototypeOf_def)
  have "proto_loop h0 i = Some ObjectPrototype"
    by (subst proto_loop.simps) (simp add: gp)
  then have "isPlainObject h0 (Obj i) = Some True"
    by (simp add: isPlainObject_def gp)
  moreover have "get (Obj i) ''type'' h0 = Ok (Str s) h0"
    by (simp add: get_def) (subst get_prop.simps, simp add: at)
  ultimately show ?thesis by (simp add: valid_action_def)
qed

lemma invoke_pure:
  assumes "body E f = pure_reducer r"
  shows "invoke (Suc (Suc m)) E (Fn f) [s, a] w = with_heap w (r s a (hp w))"
  using assms by (cases "r s a (hp w)") (simp_all add: pure_reducer_def arg_def with_heap_def)

lemma notify_empty:
  "array_at w ls = [] \<Longrightarrow> notify (Suc n) E ls i w = Ok [] w"
  by simp

lemma array_at_update [simp]:
  "array_at (w\<lparr>hp := h\<rparr>) = array_at w"
  "array_at (w\<lparr>currentState := s\<rparr>) = array_at w"
  "array_at (w\<lparr>currentReducer := r\<rparr>) = array_at w"
  "array_at (w\<lparr>isDispatching := b\<rparr>) = array_at w"
  "array_at (w\<lparr>currentListeners := c\<rparr>) = array_at w"
  "array_at (w\<lparr>nextListeners := k\<rparr>) = array_at w"
  "array_at (w\<lparr>subscriptions := u\<rparr>) = array_at w"
  by (simp_all add: array_at_def fun_eq_iff)

lemma dispatch_silent:
  assumes p: "body E f = pure_reducer r"
    and s: "silent f w" and v: "valid_action (hp w) a"
    and r: "r (currentState w) a (hp w) = Ok s' h'"
  shows "\<exists>w'. dispatch (Suc (Suc m)) E a w = Ok a w' \<and> silent f w' \<and>
              currentState w' = s' \<and> hp w' = h'"
proof -
  from s have cr: "currentReducer w = Fn f" and idle: "\<not> isDispatching w"
    and nol: "array_at w (nextListeners w) = []" by (simp_all add: silent_def)
  let ?w1 = "w\<lparr>isDispatching := True, hp := h'\<rparr>"
  let ?w3 = "?w1\<lparr>currentState := s', isDispatching := False,
                 currentListeners := Some (nextListeners ?w1)\<rparr>"
  have inv: "invoke (Suc (Suc m)) E (currentReducer w) [currentState w, a]
               (w\<lparr>isDispatching := True\<rparr>) = Ok s' ?w1"
    using r by (simp add: cr p pure_reducer_def arg_def with_heap_def)
  have "array_at ?w3 (nextListeners ?w1) = []" using nol by simp
  then have loop: "notify (Suc (Suc m)) E (nextListeners ?w1) 0 ?w3 = Ok [] ?w3"
    by (rule notify_empty)
  have d: "dispatch (Suc (Suc m)) E a w = Ok a ?w3"
    by (simp only: dispatch_valid[OF v idle] inv loop res.case)
  have "silent f ?w3" using cr nol by (simp add: silent_def)
  with d show ?thesis by auto
qed

lemma dispatch_all_silent:
  assumes p: "body E f = pure_reducer r"
    and st: "store_dispatch st = (\<lambda>n. dispatch n E)"
  shows "silent f w \<Longrightarrow> valid_actions r as (currentState w) (hp w) \<Longrightarrow>
         reduce_actions r as (currentState w) (hp w) = Ok s h \<Longrightarrow>
         \<exists>w'. dispatch_all st (Suc (Suc m)) as w = Ok () w' \<and> silent f w' \<and>
              currentState w' = s \<and> hp w' = h"
proof (induction as arbitrary: w)
  case Nil
  then show ?case by simp
next
  case (Cons a as)
  from Cons.prems(3) obtain s1 h1 where
    r1: "r (currentState w) a (hp w) = Ok s1 h1" and rest: "reduce_actions r as s1 h1 = Ok s h"
    by (cases "r (currentState w) a (hp w)") auto
  from Cons.prems(2) r1 have v: "valid_action (hp w) a" and vs: "valid_actions r as s1 h1"
    by simp_all
  from dispatch_silent[OF p Cons.prems(1) v r1, of m] obtain w1 where
    d: "dispatch (Suc (Suc m)) E a w = Ok a w1" and s1: "silent f w1"
    and cs: "currentState w1 = s1" and hh: "hp w1 = h1" by blast
  from Cons.IH[OF s1] vs rest cs hh obtain w' where
    "dispatch_all st (Suc (Suc m)) as w1 = Ok () w'" "silent f w'" "currentState w' = s" "hp w' = h"
    by auto
  with d show ?case by (simp add: st)
qed

text \<open>
  Claim C1. Let a store be created from a reducer and a preloaded state, without an
  enhancer (so the preloaded state is not a function, which \<^verbatim>\<open>createStore\<close> would take
  for the enhancer). The reducer is a function of the state and the action that makes no
  call into the store. \<^verbatim>\<open>createStore\<close> allocates its \<^verbatim>\<open>INIT\<close> action \<open>Obj i\<close> and
  dispatches it, which replaces the preloaded state by \<open>s0\<close>, the reducer's result for
  the preloaded state and that action. Then for every list of actions, each valid when
  its turn comes, for which the reducer folded over the list from \<open>s0\<close> returns \<open>s\<close>:
  dispatching the actions in order to the store returns, and \<^verbatim>\<open>getState\<close> then returns
  \<open>s\<close>. The list is any list, so this holds after every dispatch of a sequence. Two
  nested calls are all that such a store needs, and any larger bound gives the same.
\<close>

theorem state_is_fold_of_reducer:
  assumes pure: "body E f = pure_reducer r"
    and preloaded: "\<not> callable preloadedState"
    and root: "objs (hp w) \<noteq> []"
    and init: "literal [(''type'', Str (INIT (ActionTypes (randomString E))))] (hp w) = (i, h0)"
    and first: "r preloadedState (Obj i) h0 = Ok s0 h1"
    and valid: "valid_actions r actions s0 h1"
    and fold: "reduce_actions r actions s0 h1 = Ok s h"
  shows "\<exists>st w0 w'.
           createStore (Suc (Suc m)) E [Fn f, preloadedState] w = Ok st w0 \<and>
           store_getState st w0 = Ok s0 w0 \<and>
           dispatch_all st (Suc (Suc m)) actions w0 = Ok () w' \<and>
           store_getState st w' = Ok s w' \<and> hp w' = h"
proof -
  let ?w1 = "w\<lparr>currentReducer := Fn f, currentState := preloadedState,
                currentListeners := Some 0, nextListeners := 0, isDispatching := False,
                arrays := [[]], subscriptions := []\<rparr>"
  let ?st = "\<lparr>store_dispatch = (\<lambda>m. dispatch m E), store_subscribe = subscribe,
              store_getState = getState, store_replaceReducer = (\<lambda>m. replaceReducer m E)\<rparr>"
  have sil: "silent f (?w1\<lparr>hp := h0\<rparr>)" by (simp add: silent_def) (simp add: array_at_def)
  have v: "valid_action (hp (?w1\<lparr>hp := h0\<rparr>)) (Obj i)"
    using literal_valid[OF root init] by simp
  from dispatch_silent[OF pure sil v, of s0 h1 m] first obtain w0 where
    d: "dispatch (Suc (Suc m)) E (Obj i) (?w1\<lparr>hp := h0\<rparr>) = Ok (Obj i) w0"
    and s0: "silent f w0" and cs: "currentState w0 = s0" and hh: "hp w0 = h1" by auto
  have cr: "createStore (Suc (Suc m)) E [Fn f, preloadedState] w = Ok ?st w0"
    using preloaded init d
    by (subst createStore.simps) (simp add: arg_def callable_def Let_def)
  from dispatch_all_silent[OF pure, of ?st w0 actions s h m] s0 valid fold cs hh obtain w' where
    da: "dispatch_all ?st (Suc (Suc m)) actions w0 = Ok () w'" and s': "silent f w'"
    and cs': "currentState w' = s" and hh': "hp w' = h" by auto
  from s0 cs have g0: "store_getState ?st w0 = Ok s0 w0" by (simp add: getState_def silent_def)
  from s' cs' have g': "store_getState ?st w' = Ok s w'" by (simp add: getState_def silent_def)
  from cr g0 da g' hh' show ?thesis by blast
qed


lemmas heap_eval = isPlainObject_def proto_loop.simps getPrototypeOf_def obj_at_def
  ObjectPrototype_def get_def get_prop.simps valid_action_def literal_def alloc_def

text \<open>The counter, created with no preloaded state, after \<^verbatim>\<open>go\<close>, \<^verbatim>\<open>go\<close>, \<^verbatim>\<open>boom\<close>.\<close>

theorem state_is_fold_of_reducer_witness:
  "\<exists>st w0 w'.
      createStore (Suc (Suc 0)) counter_env [Fn 0, Undefined] world1 = Ok st w0 \<and>
      store_getState st w0 = Ok (Num 0) w0 \<and>
      dispatch_all st (Suc (Suc 0)) [Obj 2, Obj 2, Obj 3] w0 = Ok () w' \<and>
      store_getState st w' = Ok (Num 2) w'"
proof -
  obtain i h0 where
    init: "literal [(''type'', Str (INIT (ActionTypes (randomString counter_env))))] (hp world1) = (i, h0)"
    by (cases "literal [(''type'', Str (INIT (ActionTypes (randomString counter_env))))] (hp world1)")
  then have i: "i = 6"
    and h0: "h0 = heap1\<lparr>objs := objs heap1 @
               [\<lparr>proto = Some ObjectPrototype,
                 props = [(''type'', Str (INIT (ActionTypes (randomString counter_env))))]\<rparr>]\<rparr>"
    by (auto simp: literal_def alloc_def world1_def heap1_def)
  have pure: "body counter_env 0 = pure_reducer counter" by (simp add: counter_env_def)
  have pre: "\<not> callable Undefined" by (simp add: callable_def)
  have root: "objs (hp world1) \<noteq> []" by (simp add: world1_def heap1_def)
  have first: "counter Undefined (Obj i) h0 = Ok (Num 0) h0"
    unfolding i h0 by (simp add: counter_def heap_eval heap1_def)
  have valid: "valid_actions counter [Obj 2, Obj 2, Obj 3] (Num 0) h0"
    unfolding h0 by (simp add: counter_def heap_eval heap1_def)
  have fold: "reduce_actions counter [Obj 2, Obj 2, Obj 3] (Num 0) h0 = Ok (Num 2) h0"
    unfolding h0 by (simp add: counter_def heap_eval heap1_def)
  from state_is_fold_of_reducer[OF pure pre root init first valid fold, of 0]
  show ?thesis by blast
qed

section \<open>The combined reducer\<close>

lemma get_heap: "get v k h = Ok x h' \<Longrightarrow> h' = h"
  by (auto simp: get_def split: jsval.splits option.splits)

lemma read_heap: "read H v k h = Ok x h' \<Longrightarrow> h' = h"
  by (auto simp: read_def split: jsval.splits if_splits dest: get_heap)

lemma put_append: "k \<notin> set (map fst ps) \<Longrightarrow> put k v ps = ps @ [(k, v)]"
  by (induction ps) auto

lemma set_prop_other:
  "r \<noteq> ns \<Longrightarrow> objs (set_prop ns key v h) ! r = objs h ! r"
  by (simp add: set_prop_def)

lemma set_prop_length [simp]: "length (objs (set_prop ns key v h)) = length (objs h)"
  by (simp add: set_prop_def)

lemma set_prop_new:
  "ns < length (objs h) \<Longrightarrow> key \<notin> set (map fst (props (objs h ! ns))) \<Longrightarrow>
   objs (set_prop ns key v h) ! ns = (objs h ! ns)\<lparr>props := props (objs h ! ns) @ [(key, v)]\<rparr>"
  by (simp add: set_prop_def put_append)

text \<open>
  When every reducer and every slice is read and every reducer returns a value that is
  not \<^verbatim>\<open>undefined\<close>, the loop returns, and \<^verbatim>\<open>hasChanged\<close> says whether a reducer has
  returned a value that is not identical to the previous value of its slice. When the
  functions are pure, it has added the values returned to \<^verbatim>\<open>nextState\<close>, under their
  keys, and has changed no other object.
\<close>

lemma loop_result:
  assumes pure: "allocates_only H"
  shows "length (slices H frs ks state a ns h) = length ks \<Longrightarrow>
   all_defined (slices H frs ks state a ns h) \<Longrightarrow>
   ns < length (objs h) \<Longrightarrow> distinct ks \<Longrightarrow> ''__proto__'' \<notin> set ks \<Longrightarrow>
   set ks \<inter> set (map fst (props (objs h ! ns))) = {} \<Longrightarrow>
   \<exists>h'. combination_loop H frs ks state a ns ch h
          = Ok (ch \<or> changed (slices H frs ks state a ns h)) h' \<and>
        map fst (slices H frs ks state a ns h) = ks \<and>
        length (objs h) \<le> length (objs h') \<and>
        objs h' ! ns = (objs h ! ns)\<lparr>props := props (objs h ! ns) @
                                               composite (slices H frs ks state a ns h)\<rparr> \<and>
        (\<forall>r < length (objs h). r \<noteq> ns \<longrightarrow> objs h' ! r = objs h ! r)"
proof (induction ks arbitrary: ch h)
  case Nil
  then show ?case by (simp add: changed_def composite_def)
next
  case (Cons key rest)
  from Cons.prems(1) obtain red h0 where g0: "read H frs key h = Ok red h0"
    by (cases "read H frs key h") simp_all
  then have h0: "h0 = h" by (rule read_heap)
  from Cons.prems(1) g0 obtain prev h1 where g: "read H state key h = Ok prev h1"
    unfolding h0 by (cases "read H state key h") (simp_all add: h0)
  then have h1: "h1 = h" by (rule read_heap)
  from Cons.prems(1) g0 g obtain nxt h2 where
    c: "call_function H red Undefined [prev, a] h = Ok nxt h2"
    unfolding h0 h1 by (cases "call_function H red Undefined [prev, a] h") (simp_all add: h0 h1)
  then have "fcall H red Undefined [prev, a] h = Ok nxt h2"
    by (simp add: call_function_def split: if_splits)
  with pure have grow: "length (objs h) \<le> length (objs h2)"
    and same: "\<And>r. r < length (objs h) \<Longrightarrow> objs h2 ! r = objs h ! r"
    by (auto simp: allocates_only_def)
  have kp: "key \<noteq> ''__proto__''" using Cons.prems(5) by auto
  let ?h3 = "assign H ns key nxt h2"
  have h3: "?h3 = set_prop ns key nxt h2" using kp by (simp add: assign_def)
  have sl0: "slices H frs (key # rest) state a ns h =
               (key, prev, nxt) # (if typeof nxt = ''undefined'' then []
                                   else slices H frs rest state a ns ?h3)"
    using g0 g c by (simp add: h0 h1)
  from Cons.prems(2) have d: "typeof nxt \<noteq> ''undefined''"
    unfolding sl0 by (simp add: all_defined_def)
  have sl: "slices H frs (key # rest) state a ns h = (key, prev, nxt) # slices H frs rest state a ns ?h3"
    using sl0 d by simp
  from Cons.prems(1,2) sl have len: "length (slices H frs rest state a ns ?h3) = length rest"
    and def: "all_defined (slices H frs rest state a ns ?h3)"
    by (simp_all add: all_defined_def)
  have ns2: "ns < length (objs h2)" using Cons.prems(3) grow by simp
  have ns3: "ns < length (objs ?h3)" using ns2 by (simp add: h3)
  have knew: "key \<notin> set (map fst (props (objs h2 ! ns)))"
    using Cons.prems(6) same[OF Cons.prems(3)] by auto
  have o3: "objs ?h3 ! ns = (objs h ! ns)\<lparr>props := props (objs h ! ns) @ [(key, nxt)]\<rparr>"
    using set_prop_new[OF ns2 knew] same[OF Cons.prems(3)] by (simp add: h3)
  have dr: "distinct rest" and pr: "''__proto__'' \<notin> set rest"
    using Cons.prems(4,5) by simp_all
  have disj: "set rest \<inter> set (map fst (props (objs ?h3 ! ns))) = {}"
    using Cons.prems(4,6) o3 by auto
  from Cons.IH[OF len def ns3 dr pr disj, of "ch \<or> \<not> strict_eq nxt prev"] obtain h' where
    ih: "combination_loop H frs rest state a ns (ch \<or> \<not> strict_eq nxt prev) ?h3
           = Ok ((ch \<or> \<not> strict_eq nxt prev) \<or> changed (slices H frs rest state a ns ?h3)) h'"
      "map fst (slices H frs rest state a ns ?h3) = rest"
      "length (objs ?h3) \<le> length (objs h')"
      "objs h' ! ns = (objs ?h3 ! ns)\<lparr>props := props (objs ?h3 ! ns) @
                                            composite (slices H frs rest state a ns ?h3)\<rparr>"
      "\<forall>r < length (objs ?h3). r \<noteq> ns \<longrightarrow> objs h' ! r = objs ?h3 ! r"
    by blast
  have 1: "combination_loop H frs (key # rest) state a ns ch h
             = Ok (ch \<or> changed (slices H frs (key # rest) state a ns h)) h'"
    using g0 g c d ih(1) unfolding sl by (auto simp: h0 h1 changed_def)
  have 2: "map fst (slices H frs (key # rest) state a ns h) = key # rest"
    unfolding sl using ih(2) by simp
  have 3: "length (objs h) \<le> length (objs h')" using ih(3) grow by (simp add: h3)
  have 4: "objs h' ! ns = (objs h ! ns)\<lparr>props := props (objs h ! ns) @
                              composite (slices H frs (key # rest) state a ns h)\<rparr>"
    unfolding sl using ih(4) o3 by (simp add: composite_def)
  have 5: "\<forall>r < length (objs h). r \<noteq> ns \<longrightarrow> objs h' ! r = objs h ! r"
  proof (intro allI impI)
    fix r assume r: "r < length (objs h)" "r \<noteq> ns"
    then have "objs h' ! r = objs ?h3 ! r" using ih(5) grow by (simp add: h3)
    also have "\<dots> = objs h2 ! r" unfolding h3 using r(2) by (rule set_prop_other)
    also have "\<dots> = objs h ! r" using r(1) by (rule same)
    finally show "objs h' ! r = objs h ! r" .
  qed
  show ?case by (intro exI[of _ h'] conjI) (rule 1 2 3 4 5)+
qed

lemma combination_unfold:
  assumes "shapeAssertionError c = None" "state \<noteq> Undefined"
    and "warn_state_shape H T c state action h = Ok () h1"
  shows "combination H T c state action h =
     (case combination_loop H (Obj (finalReducers c)) (finalReducerKeys c) state action
             (length (objs h1)) False (snd (literal [] h1)) of
        Diverge \<Rightarrow> Diverge
      | Throw e h3 \<Rightarrow> Throw e h3
      | Ok hasChanged h3 \<Rightarrow> Ok (if hasChanged then Obj (length (objs h1)) else state) h3)"
  using assms by (simp add: combination_def default_state_def literal_def alloc_def)

text \<open>What a call of the combination with a composite state does.\<close>

lemma combination_result:
  assumes ok: "shapeAssertionError c = None"
    and st: "state = Obj r" and r: "r < length (objs h1)"
    and chk: "warn_state_shape H T c state action h = Ok () h1"
    and pure: "allocates_only H"
    and dk: "distinct (finalReducerKeys c)" and np: "''__proto__'' \<notin> set (finalReducerKeys c)"
    and len: "length (slices_of H c state action h1) = length (finalReducerKeys c)"
    and def: "all_defined (slices_of H c state action h1)"
  shows "\<exists>h'. combination H T c state action h =
            Ok (if changed (slices_of H c state action h1)
                then Obj (length (objs h1)) else state) h' \<and>
          map fst (slices_of H c state action h1) = finalReducerKeys c \<and>
          length (objs h1) < length (objs h') \<and>
          objs h' ! length (objs h1) =
            \<lparr>proto = Some ObjectPrototype, props = composite (slices_of H c state action h1)\<rparr> \<and>
          objs h' ! r = objs h1 ! r"
proof -
  let ?ns = "length (objs h1)"
  let ?h2 = "snd (literal [] h1)"
  let ?sl = "slices_of H c state action h1"
  from st have ne: "state \<noteq> Undefined" by simp
  have ns2: "?ns < length (objs ?h2)" by (simp add: literal_def alloc_def)
  have o2: "objs ?h2 ! ?ns = \<lparr>proto = Some ObjectPrototype, props = []\<rparr>"
    by (simp add: literal_def alloc_def)
  have disj: "set (finalReducerKeys c) \<inter> set (map fst (props (objs ?h2 ! ?ns))) = {}"
    using o2 by simp
  from loop_result[OF pure len[unfolded slices_of_def] def[unfolded slices_of_def] ns2 dk np disj,
      of False]
  obtain h' where
    loop: "combination_loop H (Obj (finalReducers c)) (finalReducerKeys c) state action ?ns False ?h2
             = Ok (changed ?sl) h'"
    and ks: "map fst ?sl = finalReducerKeys c"
    and grow: "length (objs ?h2) \<le> length (objs h')"
    and comp: "objs h' ! ?ns = (objs ?h2 ! ?ns)\<lparr>props := props (objs ?h2 ! ?ns) @ composite ?sl\<rparr>"
    and same: "\<forall>r < length (objs ?h2). r \<noteq> ?ns \<longrightarrow> objs h' ! r = objs ?h2 ! r"
    by (auto simp: slices_of_def)
  have res: "combination H T c state action h = Ok (if changed ?sl then Obj ?ns else state) h'"
    using loop by (simp add: combination_unfold[OF ok ne chk])
  have "objs h' ! r = objs ?h2 ! r" using same r by (simp add: literal_def alloc_def)
  then have sr: "objs h' ! r = objs h1 ! r" using r by (simp add: literal_def alloc_def nth_append)
  have c2: "objs h' ! ?ns = \<lparr>proto = Some ObjectPrototype, props = composite ?sl\<rparr>"
    using comp o2 by simp
  have lt: "?ns < length (objs h')" using grow ns2 by simp
  show ?thesis by (intro exI[of _ h'] conjI) (rule res ks c2 sr lt)+
qed

lemma has_type_heap: "has_type H a t h = Ok b h' \<Longrightarrow> h' = h"
  by (auto simp: has_type_def split: if_splits res.splits dest: read_heap)

lemma object_keys_heap: "object_keys H v h = Ok ks h' \<Longrightarrow> h' = h"
  by (auto simp: object_keys_def split: jsval.splits)

lemma call_function_frame:
  assumes "allocates_only H" "call_function H f this args h = Ok v h'"
  shows "length (objs h) \<le> length (objs h') \<and> (\<forall>x < length (objs h). objs h' ! x = objs h ! x)"
  using assms by (auto simp: call_function_def allocates_only_def split: if_splits)

lemma unexpected_keys_frame:
  assumes pure: "allocates_only H"
  shows "unexpected_keys H reducers cache ks h = Ok us h' \<Longrightarrow>
         length (objs h) \<le> length (objs h') \<and>
         (\<forall>x < length (objs h). objs h' ! x = objs h ! x) \<and> set us \<subseteq> set ks"
proof (induction ks arbitrary: h us h')
  case Nil
  then show ?case by simp
next
  case (Cons key ks)
  from Cons.prems obtain own h0 where r0: "read H reducers ''hasOwnProperty'' h = Ok own h0"
    by (cases "read H reducers ''hasOwnProperty'' h") simp_all
  then have h0: "h0 = h" by (rule read_heap)
  from Cons.prems r0 obtain has h1 where c: "call_function H own reducers [Str key] h = Ok has h1"
    unfolding h0 by (cases "call_function H own reducers [Str key] h") (simp_all add: h0)
  from call_function_frame[OF pure c]
  have f1: "length (objs h) \<le> length (objs h1)" "\<forall>x < length (objs h). objs h1 ! x = objs h ! x"
    by simp_all
  let ?t = "if truthy has then Ok False h1
            else (case read H (case cache of None \<Rightarrow> Undefined | Some a \<Rightarrow> Obj a) key h1 of
                    Diverge \<Rightarrow> Diverge
                  | Throw e h2 \<Rightarrow> Throw e h2
                  | Ok seen h2 \<Rightarrow> Ok (\<not> truthy seen) h2)"
  from Cons.prems r0 c obtain unexpected h2 where t: "?t = Ok unexpected h2"
    by (cases ?t) (simp_all add: h0)
  then have h2: "h2 = h1" by (auto split: if_splits res.splits dest: read_heap)
  from Cons.prems r0 c t obtain rest h3 where
    rec: "unexpected_keys H reducers cache ks h1 = Ok rest h3"
    and res: "us = (if unexpected then key # rest else rest)" "h' = h3"
    by (cases "unexpected_keys H reducers cache ks h1") (auto simp: h0 h2)
  from Cons.IH[OF rec]
  have ih: "length (objs h1) \<le> length (objs h3)" "\<forall>x < length (objs h1). objs h3 ! x = objs h1 ! x"
    "set rest \<subseteq> set ks" by simp_all
  show ?case using f1 ih res by auto
qed

lemma mark_keys_frame:
  "mark_keys H cache us h = Ok () h' \<Longrightarrow> ''__proto__'' \<notin> set us \<Longrightarrow>
   length (objs h') = length (objs h) \<and>
   (\<forall>x. cache \<noteq> Some x \<longrightarrow> objs h' ! x = objs h ! x)"
proof (induction us arbitrary: h)
  case Nil
  then show ?case by simp
next
  case (Cons key us)
  from Cons.prems(1) obtain a where a: "cache = Some a" by (cases cache) simp_all
  have k: "key \<noteq> ''__proto__''" using Cons.prems(2) by auto
  from Cons.prems(1) a k have "mark_keys H cache us (set_prop a key (JBool True) h) = Ok () h'"
    by (simp add: assign_def)
  from Cons.IH[OF this] Cons.prems(2) a show ?case by (auto simp: set_prop_other)
qed

text \<open>
  The statement that warns about the shape of the state leaves a plain state as it is,
  when the functions are pure and warnings are harmless.
\<close>

lemma warn_state_shape_frame:
  assumes pure: "allocates_only H" and hw: "harmless_warnings H"
    and plain: "isPlainObject h (Obj r) = Some True" and r: "r < length (objs h)"
    and cache: "unexpectedKeyCache c \<noteq> Some r" and np: "''__proto__'' \<notin> set (keys h r)"
    and chk: "warn_state_shape H T c (Obj r) action h = Ok () h1"
  shows "obj_at h1 r = obj_at h r"
proof (cases "production H")
  case True
  with chk show ?thesis by (simp add: warn_state_shape_def)
next
  case False
  from chk False obtain wm hm where
    gm: "getUnexpectedStateShapeWarningMessage H T (Obj r) (Obj (finalReducers c)) action
           (unexpectedKeyCache c) h = Ok wm hm"
    and w: "(case wm of None \<Rightarrow> Ok () hm | Some m \<Rightarrow> warning H m hm) = Ok () h1"
    by (auto simp: warn_state_shape_def split: res.splits)
  have o1: "objs h1 = objs hm"
    using w hw by (cases wm) (auto simp: harmless_warnings_def, metis res.inject(2))
  have "r < length (objs hm) \<and> objs hm ! r = objs h ! r"
  proof -
    let ?fr = "Obj (finalReducers c)"
    have ok: "object_keys H ?fr h = Ok (keys h (finalReducers c)) h"
      by (simp add: object_keys_def)
    obtain isInit where ht: "has_type H action (INIT T) h = Ok isInit h"
    proof (cases "has_type H action (INIT T) h")
      case (Ok b hx)
      with has_type_heap[OF Ok] that show thesis by simp
    qed (use gm ok in \<open>simp_all add: getUnexpectedStateShapeWarningMessage_def\<close>)
    show ?thesis
    proof (cases "length (keys h (finalReducers c)) = 0")
      case True
      with gm ok ht have "hm = h" by (simp add: getUnexpectedStateShapeWarningMessage_def)
      with r show ?thesis by simp
    next
      case nz: False
      have sk: "object_keys H (Obj r) h = Ok (keys h r) h" by (simp add: object_keys_def)
      let ?uk = "unexpected_keys H ?fr (unexpectedKeyCache c) (keys h r) h"
      from gm ok ht nz plain sk have g1:
        "(case ?uk of
            Diverge \<Rightarrow> Diverge
          | Throw e h3 \<Rightarrow> Throw e h3
          | Ok unexpectedKeys h3 \<Rightarrow>
              (case mark_keys H (unexpectedKeyCache c) unexpectedKeys h3 of
                 Diverge \<Rightarrow> Diverge
               | Throw e h4 \<Rightarrow> Throw e h4
               | Ok u h4 \<Rightarrow>
                   (case has_type H action (REPLACE T) h4 of
                      Diverge \<Rightarrow> Diverge
                    | Throw e h5 \<Rightarrow> Throw e h5
                    | Ok isReplace h5 \<Rightarrow>
                        if isReplace then Ok None h5
                        else if length unexpectedKeys > 0
                        then Ok (Some (UnexpectedKeys unexpectedKeys isInit (keys h (finalReducers c)))) h5
                        else Ok None h5))) = Ok wm hm"
        by (simp add: getUnexpectedStateShapeWarningMessage_def)
      then obtain us h3 where uk: "?uk = Ok us h3" by (cases ?uk) simp_all
      from g1 uk obtain h4 where mk: "mark_keys H (unexpectedKeyCache c) us h3 = Ok () h4"
        by (cases "mark_keys H (unexpectedKeyCache c) us h3") simp_all
      from g1 uk mk obtain isReplace h5 where hr: "has_type H action (REPLACE T) h4 = Ok isReplace h5"
        by (cases "has_type H action (REPLACE T) h4") simp_all
      then have h5: "h5 = h4" by (rule has_type_heap)
      from g1 uk mk hr have hm: "hm = h4" by (auto simp: h5 split: if_splits)
      from unexpected_keys_frame[OF pure uk]
      have f3: "length (objs h) \<le> length (objs h3)" "objs h3 ! r = objs h ! r" "set us \<subseteq> set (keys h r)"
        using r by simp_all
      have "''__proto__'' \<notin> set us" using f3(3) np by auto
      from mark_keys_frame[OF mk this] cache
      have f4: "length (objs h4) = length (objs h3)" "objs h4 ! r = objs h3 ! r" by simp_all
      show ?thesis using f3 f4 r by (simp add: hm)
    qed
  qed
  then show ?thesis using o1 r by (simp add: obj_at_def)
qed


subsection \<open>The keys of the result\<close>

lemma get_own: "map_of (props (obj_at h m)) k = Some v \<Longrightarrow> get (Obj m) k h = Ok v h"
  by (simp add: get_def get_prop.simps)

lemma obj_at_objs: "objs h' = objs h \<Longrightarrow> obj_at h' r = obj_at h r"
  by (simp add: obj_at_def)

lemma set_prop_obj_at_other: "r \<noteq> ns \<Longrightarrow> obj_at (set_prop ns key v h) r = obj_at h r"
  by (simp add: obj_at_def set_prop_def)

lemma set_prop_keys:
  "ns < length (objs h) \<Longrightarrow> key \<notin> set (keys h ns) \<Longrightarrow>
   keys (set_prop ns key v h) ns = keys h ns @ [key]"
  by (simp add: set_prop_def keys_def obj_at_def put_append)

text \<open>
  The first loop of \<^verbatim>\<open>combineReducers\<close>, for a mapping that is an object without the key
  \<^verbatim>\<open>__proto__\<close>: \<^verbatim>\<open>finalReducers\<close> receives the keys whose value is a function.
\<close>

lemma filterReducers_result:
  assumes hw: "harmless_warnings H" and ne: "m \<noteq> fr"
  shows "filterReducers H (Obj m) ks fr h = Ok () h' \<Longrightarrow> fr < length (objs h) \<Longrightarrow>
         set ks \<subseteq> set (keys h m) \<Longrightarrow> ''__proto__'' \<notin> set ks \<Longrightarrow> distinct ks \<Longrightarrow>
         set ks \<inter> set (keys h fr) = {} \<Longrightarrow>
         keys h' fr = keys h fr @
           filter (\<lambda>k. typeof (case map_of (props (obj_at h m)) k of None \<Rightarrow> Undefined | Some v \<Rightarrow> v)
                         = ''function'') ks \<and>
         obj_at h' m = obj_at h m"
proof (induction ks arbitrary: h)
  case Nil
  then show ?case by simp
next
  case (Cons key rest)
  from Cons.prems(3) have "key \<in> set (map fst (props (obj_at h m)))" by (simp add: keys_def)
  then obtain v where mv: "map_of (props (obj_at h m)) key = Some v"
    by (metis map_of_eq_None_iff not_Some_eq set_map)
  have kp: "key \<noteq> ''__proto__''" using Cons.prems(4) by auto
  have rd: "read H (Obj m) key h = Ok v h" using get_own[OF mv] kp by (simp add: read_def)
  have "\<exists>h1. (if production H then Ok () h
         else (case read H (Obj m) key h of
                 Diverge \<Rightarrow> Diverge
               | Throw e h' \<Rightarrow> Throw e h'
               | Ok v h' \<Rightarrow>
                   if typeof v = ''undefined'' then warning H (NoReducerProvided key) h'
                   else Ok () h')) = Ok () h1 \<and> objs h1 = objs h"
  proof (cases "production H \<or> typeof v \<noteq> ''undefined''")
    case True
    then show ?thesis unfolding rd by auto
  next
    case False
    from hw obtain hx where "warning H (NoReducerProvided key) h = Ok () hx" "objs hx = objs h"
      unfolding harmless_warnings_def by blast
    with False show ?thesis unfolding rd by auto
  qed
  then obtain h1 where
    w: "(if production H then Ok () h
         else (case read H (Obj m) key h of
                 Diverge \<Rightarrow> Diverge
               | Throw e h' \<Rightarrow> Throw e h'
               | Ok v h' \<Rightarrow>
                   if typeof v = ''undefined'' then warning H (NoReducerProvided key) h'
                   else Ok () h')) = Ok () h1" and o1: "objs h1 = objs h"
    by blast
  have m1: "obj_at h1 m = obj_at h m" using o1 by (rule obj_at_objs)
  have rd1: "read H (Obj m) key h1 = Ok v h1" using get_own[of h1 m key v] mv m1 kp by (simp add: read_def)
  let ?h2 = "if typeof v = ''function'' then assign H fr key v h1 else h1"
  have step: "filterReducers H (Obj m) rest fr ?h2 = Ok () h'"
    using Cons.prems(1) w rd1 by simp
  have a2: "?h2 = (if typeof v = ''function'' then set_prop fr key v h1 else h1)"
    using kp by (simp add: assign_def)
  have fr2: "fr < length (objs ?h2)" using Cons.prems(2) o1 by (simp add: a2)
  have m2: "obj_at ?h2 m = obj_at h m" using m1 ne by (simp add: a2 set_prop_obj_at_other)
  have k1: "keys h1 fr = keys h fr" using o1 by (simp add: keys_def obj_at_def)
  have knew: "key \<notin> set (keys h1 fr)" using Cons.prems(6) k1 by auto
  have k2: "keys ?h2 fr = keys h fr @ (if typeof v = ''function'' then [key] else [])"
    using set_prop_keys[of fr h1 key v] knew Cons.prems(2) o1 k1 by (simp add: a2)
  have sub: "set rest \<subseteq> set (keys ?h2 m)" using Cons.prems(3) m2 by (simp add: keys_def)
  have disj: "set rest \<inter> set (keys ?h2 fr) = {}" using Cons.prems(5,6) k2 by auto
  from Cons.IH[OF step fr2 sub _ _ disj] Cons.prems(4,5)
  have ih: "keys h' fr = keys ?h2 fr @
           filter (\<lambda>k. typeof (case map_of (props (obj_at ?h2 m)) k of None \<Rightarrow> Undefined | Some v \<Rightarrow> v)
                         = ''function'') rest" "obj_at h' m = obj_at ?h2 m"
    by simp_all
  show ?case using ih k2 m2 mv by simp
qed

lemma collectReducers_keys:
  assumes hw: "harmless_warnings H" and m: "m < length (objs h0)"
    and dk: "distinct (keys h0 m)" and np: "''__proto__'' \<notin> set (keys h0 m)"
    and cr: "collectReducers H (Obj m) h0 = Ok c h3"
  shows "finalReducerKeys c = function_keys h0 m"
proof -
  let ?fr = "length (objs h0)"
  let ?h1 = "snd (literal [] h0)"
  from cr obtain h2 where
    f: "filterReducers H (Obj m) (keys h0 m) ?fr ?h1 = Ok () h2" and k: "finalReducerKeys c = keys h2 ?fr"
    by (auto simp: collectReducers_def object_keys_def literal_def alloc_def Let_def
             split: res.splits if_splits)
  have ne: "m \<noteq> ?fr" using m by simp
  have fr1: "?fr < length (objs ?h1)" by (simp add: literal_def alloc_def)
  have m1: "obj_at ?h1 m = obj_at h0 m" using m by (simp add: literal_def alloc_def obj_at_def nth_append)
  have sub: "set (keys h0 m) \<subseteq> set (keys ?h1 m)" using m1 by (simp add: keys_def)
  have k1: "keys ?h1 ?fr = []" by (simp add: literal_def alloc_def keys_def obj_at_def)
  have disj: "set (keys h0 m) \<inter> set (keys ?h1 ?fr) = {}" using k1 by simp
  from filterReducers_result[OF hw ne f fr1 sub np dk disj] k1 m1
  show ?thesis by (simp add: k function_keys_def)
qed

lemma combineReducers_collect:
  assumes "combineReducers H T reducers h0 = Ok c hc"
  obtains c0 h3 where "collectReducers H reducers h0 = Ok c0 h3"
    "finalReducerKeys c = finalReducerKeys c0"
  using assms by (auto simp: combineReducers_def split: res.splits)

text \<open>
  Claim C10. Take the combination that \<^verbatim>\<open>combineReducers\<close> makes of a mapping, an object
  of the heap with distinct keys, none of them \<^verbatim>\<open>__proto__\<close>, when warnings are harmless.
  The keys of the combination are the keys of the filtered reducer mapping: the keys of
  the mapping whose value is a function, in order. Let the reducers have passed validation
  and the functions be pure, and take a state that is an object of the heap and an action,
  such that every reducer and every slice is read and every reducer returns a value that
  is not \<^verbatim>\<open>undefined\<close>; \<open>h1\<close> is the heap after the statement that warns about the
  shape of the state, the heap \<open>h\<close> of the call in a production build. If some reducer has
  returned a value that is not identical to the previous value of its slice, the result is
  the new object, and its keys are exactly the keys of the filtered reducer mapping: a
  key of the state that is not one of them is not a key of the result. If no slice has
  changed, the result is the state it was given, whose keys are all as they were: the
  loop leaves them, and so does the statement that warns, for a plain state. So whether
  a key that the mapping does not have survives depends on whether a slice has changed.
\<close>

theorem combination_result_keys:
  assumes "combineReducers H T (Obj m) h0 = Ok c hc"
    and "m < length (objs h0)" and "distinct (keys h0 m)" and "''__proto__'' \<notin> set (keys h0 m)"
    and "harmless_warnings H"
    and "shapeAssertionError c = None"
    and "state = Obj r" and "r < length (objs h1)"
    and "warn_state_shape H T c state action h = Ok () h1"
    and "allocates_only H"
    and "length (slices_of H c state action h1) = length (finalReducerKeys c)"
    and "all_defined (slices_of H c state action h1)"
  shows "finalReducerKeys c = function_keys h0 m \<and>
         (\<exists>h'. combination H T c state action h =
                  Ok (if changed (slices_of H c state action h1)
                      then Obj (length (objs h1)) else state) h' \<and>
               (changed (slices_of H c state action h1) \<longrightarrow>
                  keys h' (length (objs h1)) = function_keys h0 m \<and>
                  (\<forall>k \<in> set (keys h1 r). k \<notin> set (function_keys h0 m) \<longrightarrow>
                     k \<notin> set (keys h' (length (objs h1))))) \<and>
               (\<not> changed (slices_of H c state action h1) \<longrightarrow> keys h' r = keys h1 r)) \<and>
         (production H \<longrightarrow> h1 = h) \<and>
         (isPlainObject h state = Some True \<and> r < length (objs h) \<and>
          unexpectedKeyCache c \<noteq> Some r \<and> ''__proto__'' \<notin> set (keys h r)
            \<longrightarrow> keys h1 r = keys h r)"
proof -
  from assms(1) obtain c0 h3 where c0: "collectReducers H (Obj m) h0 = Ok c0 h3"
    and kk: "finalReducerKeys c = finalReducerKeys c0" by (rule combineReducers_collect)
  have fk: "finalReducerKeys c = function_keys h0 m"
    using collectReducers_keys[OF assms(5) assms(2) assms(3) assms(4) c0] kk by simp
  have dk: "distinct (finalReducerKeys c)" using assms(3) by (simp add: fk function_keys_def)
  have np: "''__proto__'' \<notin> set (finalReducerKeys c)" using assms(4) by (simp add: fk function_keys_def)
  from combination_result[OF assms(6) assms(7) assms(8) assms(9) assms(10) dk np assms(11) assms(12)]
  obtain h' where
    res: "combination H T c state action h =
            Ok (if changed (slices_of H c state action h1)
                then Obj (length (objs h1)) else state) h'"
    and ks: "map fst (slices_of H c state action h1) = finalReducerKeys c"
    and lt: "length (objs h1) < length (objs h')"
    and comp: "objs h' ! length (objs h1) =
            \<lparr>proto = Some ObjectPrototype, props = composite (slices_of H c state action h1)\<rparr>"
    and sr: "objs h' ! r = objs h1 ! r"
    by blast
  have "map fst (composite (slices_of H c state action h1)) = map fst (slices_of H c state action h1)"
    by (simp add: composite_def case_prod_unfold)
  then have kn: "keys h' (length (objs h1)) = function_keys h0 m"
    using comp lt ks fk by (simp add: keys_def obj_at_def)
  have kr: "keys h' r = keys h1 r" using sr lt assms(8) by (simp add: keys_def obj_at_def)
  have pr: "production H \<longrightarrow> h1 = h" using assms(9) by (auto simp: warn_state_shape_def)
  have fr: "isPlainObject h state = Some True \<and> r < length (objs h) \<and>
          unexpectedKeyCache c \<noteq> Some r \<and> ''__proto__'' \<notin> set (keys h r)
            \<longrightarrow> keys h1 r = keys h r"
  proof (intro impI)
    assume x: "isPlainObject h state = Some True \<and> r < length (objs h) \<and>
          unexpectedKeyCache c \<noteq> Some r \<and> ''__proto__'' \<notin> set (keys h r)"
    have "obj_at h1 r = obj_at h r"
      by (rule warn_state_shape_frame[where H = H and T = T and c = c and action = action])
         (use x assms in simp_all)
    then show "keys h1 r = keys h r" by (simp add: keys_def)
  qed
  show ?thesis
    by (intro conjI exI[of _ h']) (use fk res kn kr pr fr in auto)
qed

subsection \<open>Examples\<close>

text \<open>
  The mapping \<^verbatim>\<open>{a: f0, b: f1, n: 7}\<close> in a build that is not a production build:
  \<^verbatim>\<open>combineReducers\<close> keeps the keys \<^verbatim>\<open>a\<close> and \<^verbatim>\<open>b\<close>. Every call of the combination
  with the state \<^verbatim>\<open>{a: 1, b: 2, extra: 3}\<close> first reports the key \<^verbatim>\<open>extra\<close>.
\<close>

lemmas heap2_eval = heap2_def get_def get_prop.simps getPrototypeOf_def obj_at_def
  ObjectPrototype_def literal_def alloc_def set_prop_def keep_def counter_def
  fragile_def arg_def strict_eq_def read_def call_function_def assign_def object_keys_def
  keys_def hasOwnProperty_def example_host_def types0_def ActionTypes_def

lemma combine_ab:
  "combineReducers example_host types0 (Obj 6) heap2 = Ok combined_ab heap3"
  by (simp add: combineReducers_def collectReducers_def assertReducerShape_def combined_ab_def
        heap3_def Let_def heap2_eval)


lemma example_host_pure: "allocates_only example_host"
  by (auto simp: allocates_only_def example_host_def keep_def counter_def fragile_def
        hasOwnProperty_def get_def split: if_splits res.splits jsval.splits option.splits)

lemma example_host_harmless: "harmless_warnings example_host"
  by (simp add: harmless_warnings_def example_host_def)

lemma length_heap4: "length (objs heap4) = 16"
  by (simp add: heap4_def heap3_def heap2_def)

lemma check_noop:
  "warn_state_shape example_host types0 combined_ab (Obj 7) (Obj 3) heap3 = Ok () heap4"
  by (simp add: warn_state_shape_def getUnexpectedStateShapeWarningMessage_def has_type_def
        combined_ab_def heap3_def heap4_def isPlainObject_def proto_loop.simps heap2_eval)

lemma check_go:
  "warn_state_shape example_host types0 combined_ab (Obj 7) (Obj 2) heap3 = Ok () heap4"
  by (simp add: warn_state_shape_def getUnexpectedStateShapeWarningMessage_def has_type_def
        combined_ab_def heap3_def heap4_def isPlainObject_def proto_loop.simps heap2_eval)

lemma slices_noop:
  "slices_of example_host combined_ab (Obj 7) (Obj 3) heap4
     = [(''a'', Num 1, Num 1), (''b'', Num 2, Num 2)]"
  by (simp add: slices_of_def combined_ab_def heap4_def heap3_def heap2_eval)

lemma slices_go:
  "slices_of example_host combined_ab (Obj 7) (Obj 2) heap4
     = [(''a'', Num 1, Num 1), (''b'', Num 2, Num 3)]"
  by (simp add: slices_of_def combined_ab_def heap4_def heap3_def heap2_eval)


text \<open>The same two calls: the new object has lost the key \<^verbatim>\<open>extra\<close>, the state has kept it.\<close>

theorem combination_result_keys_witness:
  "combineReducers example_host types0 (Obj 6) heap2 = Ok combined_ab heap3 \<and>
   function_keys heap2 6 = [''a'', ''b''] \<and>
   (\<exists>h'. combination example_host types0 combined_ab (Obj 7) (Obj 2) heap3 = Ok (Obj 16) h' \<and>
         keys h' 16 = [''a'', ''b'']) \<and>
   (\<exists>h'. combination example_host types0 combined_ab (Obj 7) (Obj 3) heap3 = Ok (Obj 7) h' \<and>
         keys h' 7 = [''a'', ''b'', ''extra''])"
proof -
  have m: "(6::nat) < length (objs heap2)" by (simp add: heap2_def)
  have dm: "distinct (keys heap2 6)" by (simp add: keys_def heap2_def obj_at_def)
  have nm: "''__proto__'' \<notin> set (keys heap2 6)" by (simp add: keys_def heap2_def obj_at_def)
  have a: "shapeAssertionError combined_ab = None" by (simp add: combined_ab_def)
  have b: "(7::nat) < length (objs heap4)" by (simp add: length_heap4)
  have k: "keys heap4 7 = [''a'', ''b'', ''extra'']"
    by (simp add: keys_def heap4_def heap3_def heap2_def obj_at_def)
  have fk: "function_keys heap2 6 = [''a'', ''b'']"
    by (simp add: function_keys_def keys_def heap2_def obj_at_def)
  have c: "length (slices_of example_host combined_ab (Obj 7) (Obj 3) heap4)
             = length (finalReducerKeys combined_ab)"
    unfolding slices_noop by (simp add: combined_ab_def)
  have d: "all_defined (slices_of example_host combined_ab (Obj 7) (Obj 3) heap4)"
    by (simp add: slices_noop all_defined_def)
  have e: "length (slices_of example_host combined_ab (Obj 7) (Obj 2) heap4)
             = length (finalReducerKeys combined_ab)"
    unfolding slices_go by (simp add: combined_ab_def)
  have f: "all_defined (slices_of example_host combined_ab (Obj 7) (Obj 2) heap4)"
    by (simp add: slices_go all_defined_def)
  from combination_result_keys[OF combine_ab m dm nm example_host_harmless a HOL.refl b check_go
          example_host_pure e f]
  have 1: "\<exists>h'. combination example_host types0 combined_ab (Obj 7) (Obj 2) heap3 = Ok (Obj 16) h' \<and>
         keys h' 16 = [''a'', ''b'']"
    by (auto simp: slices_go changed_def strict_eq_def length_heap4 fk)
  from combination_result_keys[OF combine_ab m dm nm example_host_harmless a HOL.refl b check_noop
          example_host_pure c d]
  have 2: "\<exists>h'. combination example_host types0 combined_ab (Obj 7) (Obj 3) heap3 = Ok (Obj 7) h' \<and>
         keys h' 7 = [''a'', ''b'', ''extra'']"
    by (auto simp: slices_noop changed_def strict_eq_def k)
  from combine_ab fk 1 2 show ?thesis by blast
qed

section \<open>When a reducer returns undefined\<close>














section \<open>The order of the middleware\<close>

text \<open>
  \<^verbatim>\<open>compose(f1, ..., fn)\<close> applies \<open>fn\<close> first and \<open>f1\<close> last, so in the chain the first
  middleware is the outermost and the store's own \<^verbatim>\<open>dispatch\<close> the innermost.
\<close>

lemma foldl_compose:
  "foldl (\<lambda>a b. (\<lambda>args. a (b args))) f fs x = f (foldr (\<lambda>g acc. g acc) fs x)"
  by (induction fs arbitrary: f) simp_all

lemma compose_foldr: "compose fs x = foldr (\<lambda>g acc. g acc) fs x"
proof (cases fs)
  case Nil
  then show ?thesis by (simp add: compose_def)
next
  case (Cons f rest)
  then show ?thesis by (cases rest) (simp_all add: compose_def foldl_compose)
qed

lemma chain_dispatch_foldr:
  "chain_dispatch mws st (Suc n) =
     foldr (\<lambda>m nxt. m \<lparr>api_getState = store_getState st,
                          api_dispatch = chain_dispatch mws st n\<rparr> nxt)
       mws (store_dispatch st n)"
proof -
  have "foldr (\<lambda>g acc. g acc) (map (\<lambda>m. m api) ms) x = foldr (\<lambda>m nxt. m api nxt) ms x"
    for api :: middlewareAPI and ms :: "middleware list" and x
    by (induction ms) simp_all
  then show ?thesis by (simp add: compose_foldr Let_def)
qed


lemma applyMiddleware_Ok:
  assumes "applyMiddleware mws cs args w = Ok st' w'"
  obtains st where "cs args w = Ok st w'" "st' = st\<lparr>store_dispatch := chain_dispatch mws st\<rparr>"
  using assms by (auto simp: applyMiddleware_def split: res.splits)

text \<open>
  Claim C7. When \<^verbatim>\<open>applyMiddleware(A, B, C)\<close>, applied to a store creator, returns a
  store, the creator has returned the store \<open>st\<close> underneath, and the \<^verbatim>\<open>dispatch\<close> of
  the new store is \<open>A\<close> around \<open>B\<close> around \<open>C\<close> around the \<^verbatim>\<open>dispatch\<close> of \<open>st\<close>: a
  call runs the logic of \<open>A\<close>, whose \<^verbatim>\<open>next\<close> is the logic of \<open>B\<close>, whose \<^verbatim>\<open>next\<close> is the
  logic of \<open>C\<close>, whose \<^verbatim>\<open>next\<close> is the original \<^verbatim>\<open>dispatch\<close>. Each of the three has been
  given the same API, whose \<^verbatim>\<open>getState\<close> is that of \<open>st\<close> and whose \<^verbatim>\<open>dispatch\<close> is the
  whole chain again. For two middlewares that record a tag and call \<^verbatim>\<open>next\<close>, a dispatch
  is the original dispatch after the tag of the first and then the tag of the second
  have been appended to the journal. The bound \<open>Suc n\<close> allows \<open>n\<close> nested calls to the
  store underneath and to the chain.
\<close>

theorem middleware_order:
  "(applyMiddleware [A, B, C] createStore' args w = Ok st' w' \<longrightarrow>
      (\<exists>st. createStore' args w = Ok st w' \<and>
            store_getState st' = store_getState st \<and>
            store_dispatch st' (Suc n) =
              A \<lparr>api_getState = store_getState st, api_dispatch = store_dispatch st' n\<rparr>
               (B \<lparr>api_getState = store_getState st, api_dispatch = store_dispatch st' n\<rparr>
                 (C \<lparr>api_getState = store_getState st, api_dispatch = store_dispatch st' n\<rparr>
                   (store_dispatch st n))))) \<and>
   (applyMiddleware [tagging t1, tagging t2] createStore' args w = Ok st' w' \<longrightarrow>
      (\<exists>st. createStore' args w = Ok st w' \<and>
            store_dispatch st' (Suc n) action w1 =
              store_dispatch st n action (record_tag t2 (record_tag t1 w1)) \<and>
            journal (hp (record_tag t2 (record_tag t1 w1))) = journal (hp w1) @ [Str t1, Str t2]))"
proof (intro conjI impI)
  assume "applyMiddleware [A, B, C] createStore' args w = Ok st' w'"
  then obtain st where st: "createStore' args w = Ok st w'"
    "st' = st\<lparr>store_dispatch := chain_dispatch [A, B, C] st\<rparr>" by (rule applyMiddleware_Ok)
  then show "\<exists>st. createStore' args w = Ok st w' \<and>
            store_getState st' = store_getState st \<and>
            store_dispatch st' (Suc n) =
              A \<lparr>api_getState = store_getState st, api_dispatch = store_dispatch st' n\<rparr>
               (B \<lparr>api_getState = store_getState st, api_dispatch = store_dispatch st' n\<rparr>
                 (C \<lparr>api_getState = store_getState st, api_dispatch = store_dispatch st' n\<rparr>
                   (store_dispatch st n)))"
    by (intro exI[of _ st]) (simp add: Let_def compose_foldr)
next
  assume "applyMiddleware [tagging t1, tagging t2] createStore' args w = Ok st' w'"
  then obtain st where st: "createStore' args w = Ok st w'"
    "st' = st\<lparr>store_dispatch := chain_dispatch [tagging t1, tagging t2] st\<rparr>"
    by (rule applyMiddleware_Ok)
  then show "\<exists>st. createStore' args w = Ok st w' \<and>
            store_dispatch st' (Suc n) action w1 =
              store_dispatch st n action (record_tag t2 (record_tag t1 w1)) \<and>
            journal (hp (record_tag t2 (record_tag t1 w1))) = journal (hp w1) @ [Str t1, Str t2]"
    by (intro exI[of _ st]) (simp add: Let_def compose_foldr tagging_def record_tag_def)
qed

text \<open>
  Three and two tagging middlewares around a store with the reducer that returns its
  state: after one dispatch the journal holds the tags in the order of the list.
\<close>

lemma tagged_dispatch:
  "\<exists>w0 wf wg.
     createStore (Suc (Suc 0)) identity_env [Fn 0] world1
       = Ok \<lparr>store_dispatch = (\<lambda>m. dispatch m identity_env), store_subscribe = subscribe,
             store_getState = getState,
             store_replaceReducer = (\<lambda>m. replaceReducer m identity_env)\<rparr> w0 \<and>
     dispatch (Suc (Suc 0)) identity_env (Obj 2) (record_tag ''mw2'' (record_tag ''mw1'' w0))
       = Ok (Obj 2) wf \<and>
     journal (hp wf) = [Str ''mw1'', Str ''mw2''] \<and>
     dispatch (Suc (Suc 0)) identity_env (Obj 2) (record_tag ''c'' (record_tag ''b'' (record_tag ''a'' w0)))
       = Ok (Obj 2) wg \<and>
     journal (hp wg) = [Str ''a'', Str ''b'', Str ''c'']"
  by (simp add: createStore.simps dispatch.simps arg_def identity_env_def world1_def heap1_def
        Let_def literal_def alloc_def isPlainObject_def proto_loop.simps getPrototypeOf_def
        obj_at_def ObjectPrototype_def with_heap_def get_def get_prop.simps ActionTypes_def
        array_at_def record_tag_def)

theorem middleware_order_witness:
  "(\<exists>st' w0 wg.
      applyMiddleware [tagging ''a'', tagging ''b'', tagging ''c'']
        (createStore (Suc (Suc 0)) identity_env) [Fn 0] world1 = Ok st' w0 \<and>
      store_dispatch st' (Suc (Suc (Suc 0))) (Obj 2) w0 = Ok (Obj 2) wg \<and>
      journal (hp wg) = [Str ''a'', Str ''b'', Str ''c'']) \<and>
   (\<exists>st' w0 wf.
      applyMiddleware [tagging ''mw1'', tagging ''mw2'']
        (createStore (Suc (Suc 0)) identity_env) [Fn 0] world1 = Ok st' w0 \<and>
      store_dispatch st' (Suc (Suc (Suc 0))) (Obj 2) w0 = Ok (Obj 2) wf \<and>
      journal (hp wf) = [Str ''mw1'', Str ''mw2''])"
proof -
  let ?st = "\<lparr>store_dispatch = (\<lambda>m. dispatch m identity_env), store_subscribe = subscribe,
              store_getState = getState,
              store_replaceReducer = (\<lambda>m. replaceReducer m identity_env)\<rparr>"
  let ?cs = "createStore (Suc (Suc 0)) identity_env"
  from tagged_dispatch obtain w0 wf wg where
    cs: "?cs [Fn 0] world1 = Ok ?st w0"
    and d2: "dispatch (Suc (Suc 0)) identity_env (Obj 2) (record_tag ''mw2'' (record_tag ''mw1'' w0))
               = Ok (Obj 2) wf"
    and j2: "journal (hp wf) = [Str ''mw1'', Str ''mw2'']"
    and d3: "dispatch (Suc (Suc 0)) identity_env (Obj 2)
               (record_tag ''c'' (record_tag ''b'' (record_tag ''a'' w0))) = Ok (Obj 2) wg"
    and j3: "journal (hp wg) = [Str ''a'', Str ''b'', Str ''c'']"
    by blast
  let ?s3 = "?st\<lparr>store_dispatch := chain_dispatch [tagging ''a'', tagging ''b'', tagging ''c''] ?st\<rparr>"
  let ?s2 = "?st\<lparr>store_dispatch := chain_dispatch [tagging ''mw1'', tagging ''mw2''] ?st\<rparr>"
  have a3: "applyMiddleware [tagging ''a'', tagging ''b'', tagging ''c''] ?cs [Fn 0] world1 = Ok ?s3 w0"
    by (simp only: applyMiddleware_def cs res.case)
  have a2: "applyMiddleware [tagging ''mw1'', tagging ''mw2''] ?cs [Fn 0] world1 = Ok ?s2 w0"
    by (simp only: applyMiddleware_def cs res.case)
  from a3 middleware_order[of "tagging ''a''" "tagging ''b''" "tagging ''c''" ?cs "[Fn 0]" world1 ?s3 w0 "Suc (Suc 0)"]
  obtain st where "?cs [Fn 0] world1 = Ok st w0"
    and "store_dispatch ?s3 (Suc (Suc (Suc 0))) =
           tagging ''a'' \<lparr>api_getState = store_getState st, api_dispatch = store_dispatch ?s3 (Suc (Suc 0))\<rparr>
            (tagging ''b'' \<lparr>api_getState = store_getState st, api_dispatch = store_dispatch ?s3 (Suc (Suc 0))\<rparr>
              (tagging ''c'' \<lparr>api_getState = store_getState st, api_dispatch = store_dispatch ?s3 (Suc (Suc 0))\<rparr>
                (store_dispatch st (Suc (Suc 0)))))"
    by blast
  with cs have "store_dispatch ?s3 (Suc (Suc (Suc 0))) (Obj 2) w0 =
      dispatch (Suc (Suc 0)) identity_env (Obj 2) (record_tag ''c'' (record_tag ''b'' (record_tag ''a'' w0)))"
    by (simp add: tagging_def)
  with d3 have r3: "store_dispatch ?s3 (Suc (Suc (Suc 0))) (Obj 2) w0 = Ok (Obj 2) wg" by simp
  from a2 middleware_order[of _ _ _ ?cs "[Fn 0]" world1 ?s2 w0 "Suc (Suc 0)" "''mw1''" "''mw2''" "Obj 2" w0]
  obtain st2 where "?cs [Fn 0] world1 = Ok st2 w0"
    and "store_dispatch ?s2 (Suc (Suc (Suc 0))) (Obj 2) w0 =
           store_dispatch st2 (Suc (Suc 0)) (Obj 2) (record_tag ''mw2'' (record_tag ''mw1'' w0))"
    by blast
  with cs d2 have r2: "store_dispatch ?s2 (Suc (Suc (Suc 0))) (Obj 2) w0 = Ok (Obj 2) wf" by simp
  from a3 r3 j3 a2 r2 j2 show ?thesis by blast
qed

end
